theory Spec2Isabelle
  imports Main "HOL-Library.Sublist"
begin

section \<open>Annotations (NetworkTools/models/blip.py)\<close>

subsection \<open>Annotation objects and the store\<close>

text \<open>
  An \<open>Annotation\<close> object has the four attributes \<open>_start\<close>, \<open>_end\<close>, \<open>_name\<close> and
  \<open>_value\<close>; positions are Python integers. The field names \<open>end'\<close> and \<open>value'\<close> carry
  a prime because \<open>end\<close> and \<open>value\<close> are reserved words here.
\<close>

record Annotation =
  start :: int
  end' :: int
  name :: string
  value' :: string

text \<open>
  \<open>Annotation.__eq__\<close> assigns to the attributes of both operands, and the same object
  can be reached from several places (a loop variable and the set that holds it). Objects
  therefore live in a store, a list addressed by position, and variables hold references.
\<close>

type_synonym ref = nat

type_synonym store = "Annotation list"

datatype error =
  CannotResolve | KeyError | RuntimeError | AttributeError | IndexError
| OverflowError | TypeError | MemoryError

definition set_start :: "store \<Rightarrow> ref \<Rightarrow> int \<Rightarrow> store" where
  "set_start h p v = h[p := (h ! p)\<lparr>start := v\<rparr>]"

definition set_end :: "store \<Rightarrow> ref \<Rightarrow> int \<Rightarrow> store" where
  "set_end h p v = h[p := (h ! p)\<lparr>end' := v\<rparr>]"

text \<open>
  \<open>Annotation.__eq__(self, y)\<close>, blip.py lines 119 to 159. Each branch performs its two
  assignments in the order of the source, on the store, so that the case \<open>self is y\<close> is
  covered as well. The \<open>isinstance\<close> test always succeeds on a reference to an Annotation.
\<close>

definition annotation_eq :: "store \<Rightarrow> ref \<Rightarrow> ref \<Rightarrow> bool \<times> store" where
  "annotation_eq h self y =
     (if name (h ! self) = name (h ! y) \<and> value' (h ! self) = value' (h ! y) then
        if start (h ! self) \<le> start (h ! y) then
          if end' (h ! self) \<le> end' (h ! y) then
            (let h1 = set_start h y (start (h ! self));
                 h2 = set_end h1 self (end' (h1 ! y))
             in (True, h2))
          else if end' (h ! self) > end' (h ! y) then
            (let h1 = set_start h y (start (h ! self));
                 h2 = set_end h1 y (end' (h1 ! self))
             in (True, h2))
          else (False, h)
        else if start (h ! self) > start (h ! y) then
          if end' (h ! self) \<le> end' (h ! y) then
            (let h1 = set_start h self (start (h ! y));
                 h2 = set_end h1 self (end' (h1 ! y))
             in (True, h2))
          else if end' (h ! self) > end' (h ! y) then
            (let h1 = set_start h self (start (h ! y));
                 h2 = set_end h1 y (end' (h1 ! self))
             in (True, h2))
          else (False, h)
        else (False, h)
      else (False, h))"

text \<open>
  \<open>Annotation.__hash__\<close> returns \<open>hash((self._start, self._end, self._name, self._value))\<close>.
  The built-in \<open>hash\<close> is not part of the repository; it is a parameter of the model: the
  hash of an integer, the hash of a string, and the way the hash of a tuple is computed
  from the hashes of its items. Nothing is assumed of it. Different annotations can
  therefore have the same hash, as they do in CPython, where \<open>hash(-1) == hash(-2)\<close>.
\<close>

record py_hash =
  hash_int :: "int \<Rightarrow> int"
  hash_str :: "string \<Rightarrow> int"
  hash_tuple :: "int list \<Rightarrow> int"

definition annotation_hash :: "py_hash \<Rightarrow> Annotation \<Rightarrow> int" where
  "annotation_hash H a =
     hash_tuple H [hash_int H (start a), hash_int H (end' a),
                   hash_str H (name a), hash_str H (value' a)]"

subsection \<open>The built-in set, as far as the class uses it\<close>

text \<open>
  A set of Annotation objects is the list of its entries, in the order its iterator yields
  them; the order of the hash table is not determined by the source. An entry is a
  reference together with the hash the object had when it was inserted: the set never
  recomputes it, so it goes out of date when the object is assigned to afterwards.

  A lookup is given a key and the hash of the key. An entry matches when its stored hash
  is that hash and it either is the key object itself or compares equal to it; the
  comparison \<open>entry == key\<close> calls \<open>Annotation.__eq__\<close>, which may assign to both objects,
  so the store is passed on. Entries with the same stored hash are tried in the order of
  the list. (Python 2 also accepts the key object itself without comparing hashes where it
  meets it on the probe path of the key; which entries lie on that path depends on the
  layout of the table, and the model does not follow it.)
\<close>

type_synonym table = "(int \<times> ref) list"

fun set_lookup :: "store \<Rightarrow> table \<Rightarrow> int \<Rightarrow> ref \<Rightarrow> (int \<times> ref) option \<times> store" where
  "set_lookup h [] khash key = (None, h)"
| "set_lookup h ((ehash, entry) # table) khash key =
     (if ehash = khash then
        if entry = key then (Some (ehash, entry), h)
        else
          (case annotation_eq h entry key of
             (True, h') \<Rightarrow> (Some (ehash, entry), h')
           | (False, h') \<Rightarrow> set_lookup h' table khash key)
      else set_lookup h table khash key)"

text \<open>\<open>set.add(key)\<close>: the key is hashed, looked up, and added with that hash when absent.\<close>

definition set_add :: "py_hash \<Rightarrow> store \<Rightarrow> table \<Rightarrow> ref \<Rightarrow> table \<times> store" where
  "set_add H h table key =
     (let khash = annotation_hash H (h ! key) in
      case set_lookup h table khash key of
        (Some entry, h') \<Rightarrow> (table, h')
      | (None, h') \<Rightarrow> (table @ [(khash, key)], h'))"

text \<open>\<open>set(iterable)\<close>: the elements are added one by one to an empty set.\<close>

fun set_of :: "py_hash \<Rightarrow> store \<Rightarrow> table \<Rightarrow> ref list \<Rightarrow> table \<times> store" where
  "set_of H h table [] = (table, h)"
| "set_of H h table (key # keys) =
     (case set_add H h table key of (table', h') \<Rightarrow> set_of H h' table' keys)"

text \<open>\<open>set.remove(key)\<close> raises \<open>KeyError\<close> when the key is not in the set.\<close>

definition set_remove :: "py_hash \<Rightarrow> store \<Rightarrow> table \<Rightarrow> ref \<Rightarrow> error + table \<times> store" where
  "set_remove H h table key =
     (case set_lookup h table (annotation_hash H (h ! key)) key of
        (Some entry, h') \<Rightarrow> Inr (remove1 entry table, h')
      | (None, h') \<Rightarrow> Inl KeyError)"

text \<open>
  \<open>set.symmetric_difference_update(other)\<close> with another set: every entry of \<open>other\<close> is
  looked up with the hash \<open>other\<close> stores for it, discarded from the set when it is found
  and added, with that hash, when it is not.
\<close>

fun symmetric_difference_update :: "store \<Rightarrow> table \<Rightarrow> table \<Rightarrow> table \<times> store" where
  "symmetric_difference_update h table [] = (table, h)"
| "symmetric_difference_update h table ((khash, key) # other) =
     (case set_lookup h table khash key of
        (Some entry, h') \<Rightarrow> symmetric_difference_update h' (remove1 entry table) other
      | (None, h') \<Rightarrow> symmetric_difference_update h' (table @ [(khash, key)]) other)"

subsection \<open>The class Annotations\<close>

text \<open>
  An \<open>Annotations\<close> object holds the set \<open>_data\<close>; the model keeps the store of the
  Annotation objects beside it.
\<close>

record Annotations =
  store :: store
  data :: table

text \<open>\<open>Annotations.__iter__\<close> yields the stored objects; this is what a reader of the set sees.\<close>

definition Annotations_iter :: "Annotations \<Rightarrow> Annotation list" where
  "Annotations_iter self = map (\<lambda>(ehash, p). store self ! p) (data self)"

text \<open>
  \<open>Annotations._resolve_pair\<close>, blip.py lines 203 to 231. The result is the reference that
  the method returns and the state it leaves; \<open>Exception("Cannot resolve")\<close> is
  \<open>CannotResolve\<close>. A new Annotation is allocated at the end of the store.
\<close>

definition resolve_pair ::
  "py_hash \<Rightarrow> Annotations \<Rightarrow> ref \<Rightarrow> ref \<Rightarrow> error + ref \<times> Annotations" where
  "resolve_pair H self annotation_1 annotation_2 =
     (let h = store self;
          swap = end' (h ! annotation_2) < end' (h ! annotation_1);
          a1 = (if swap then annotation_2 else annotation_1);
          a2 = (if swap then annotation_1 else annotation_2)
      in
        if start (h ! a2) < end' (h ! a1) then
          if end' (h ! a1) \<ge> start (h ! a2) then
            (let new_annotation = length h;
                 h1 = h @ [\<lparr>start = start (h ! a1), end' = end' (h ! a2),
                            name = name (h ! a1), value' = value' (h ! a1)\<rparr>];
                 (other, h2) = set_of H h1 [] [a1, a2, new_annotation];
                 (d, h3) = symmetric_difference_update h2 (data self) other
             in Inr (new_annotation, \<lparr>store = h3, data = d\<rparr>))
          else if start (h ! a2) \<le> start (h ! a1) \<and> end' (h ! a1) \<le> end' (h ! a2) then
            (case set_remove H h (data self) a1 of
               Inl e \<Rightarrow> Inl e
             | Inr (d, h1) \<Rightarrow> Inr (a2, \<lparr>store = h1, data = d\<rparr>))
          else Inl CannotResolve
        else Inl CannotResolve)"

text \<open>
  \<open>Annotations.resolve\<close>, blip.py lines 232 to 244: two nested \<open>for\<close> loops over
  \<open>self._data\<close>. A set iterator remembers the size of the set when it is created, and each
  request for the next element, the last one that ends the loop included, first compares
  that size with the current one and raises \<open>RuntimeError\<close> ("Set changed size during
  iteration") when they differ. The iterator walks positions of the list of entries. When
  \<open>_resolve_pair\<close> has changed the set, the loop goes on to its next request, which is
  where a changed size is noticed.
\<close>

fun resolve_inner ::
  "py_hash \<Rightarrow> nat \<Rightarrow> nat list \<Rightarrow> ref \<Rightarrow> Annotations \<Rightarrow> error + Annotations" where
  "resolve_inner H used [] annotation_1 self =
     (if length (data self) \<noteq> used then Inl RuntimeError else Inr self)"
| "resolve_inner H used (j # js) annotation_1 self =
     (if length (data self) \<noteq> used then Inl RuntimeError
      else
        let annotation_2 = snd (data self ! j) in
        case annotation_eq (store self) annotation_1 annotation_2 of
          (True, h) \<Rightarrow> resolve_inner H used js annotation_1 (self\<lparr>store := h\<rparr>)
        | (False, h) \<Rightarrow>
            if start (h ! annotation_2) < end' (h ! annotation_1) \<or>
               start (h ! annotation_1) < end' (h ! annotation_2)
            then
              (case resolve_pair H (self\<lparr>store := h\<rparr>) annotation_1 annotation_2 of
                 Inl e \<Rightarrow> Inl e
               | Inr (new_annotation, self') \<Rightarrow> resolve_inner H used js annotation_1 self')
            else resolve_inner H used js annotation_1 (self\<lparr>store := h\<rparr>))"

fun resolve_outer :: "py_hash \<Rightarrow> nat \<Rightarrow> nat list \<Rightarrow> Annotations \<Rightarrow> error + Annotations" where
  "resolve_outer H used [] self =
     (if length (data self) \<noteq> used then Inl RuntimeError else Inr self)"
| "resolve_outer H used (i # is) self =
     (if length (data self) \<noteq> used then Inl RuntimeError
      else
        case resolve_inner H (length (data self)) [0..<length (data self)]
               (snd (data self ! i)) self of
          Inl e \<Rightarrow> Inl e
        | Inr self' \<Rightarrow> resolve_outer H used is self')"

definition resolve :: "py_hash \<Rightarrow> Annotations \<Rightarrow> error + Annotations" where
  "resolve H self = resolve_outer H (length (data self)) [0..<length (data self)] self"

section \<open>BlipDocument\<close>

subsection \<open>Attribute lookup on an Annotations object\<close>

text \<open>
  The names an \<open>Annotations\<close> object answers to: the instance attribute \<open>_data\<close>, the
  methods of the class body (blip.py lines 198 to 334), and what every new-style class
  inherits from \<open>object\<close>. Looking up any other name raises \<open>AttributeError\<close>.
\<close>

definition Annotations_attributes :: "string list" where
  "Annotations_attributes =
     [''_data'', ''__init__'', ''_resolve_pair'', ''resolve'', ''_add_annotation'',
      ''annotate'', ''copy'', ''__getitem__'', ''__setitem__'', ''__contains__'',
      ''__iter__'', ''__getslice__'', ''__setslice__'']"

definition object_attributes :: "string list" where
  "object_attributes =
     [''__class__'', ''__delattr__'', ''__dict__'', ''__doc__'', ''__format__'',
      ''__getattribute__'', ''__hash__'', ''__module__'', ''__new__'', ''__reduce__'',
      ''__reduce_ex__'', ''__repr__'', ''__setattr__'', ''__sizeof__'', ''__str__'',
      ''__subclasshook__'', ''__weakref__'']"

definition Annotations_getattr :: "string \<Rightarrow> error + string" where
  "Annotations_getattr attr =
     (if attr \<in> set Annotations_attributes \<or> attr \<in> set object_attributes then Inr attr
      else Inl AttributeError)"

subsection \<open>The document\<close>

text \<open>
  \<open>BlipDocument\<close> subclasses \<open>collections.deque\<close>: the deque itself is \<open>content\<close>, and
  \<open>__init__\<close> adds an empty \<open>Annotations\<close> and the rotation 0.
\<close>

record 'a BlipDocument =
  content :: "'a list"
  annotations :: Annotations
  rotation :: int

definition BlipDocument_init :: "'a BlipDocument" where
  "BlipDocument_init = \<lparr>content = [], annotations = \<lparr>store = [], data = []\<rparr>, rotation = 0\<rparr>"

text \<open>
  A method either returns or raises, and in both cases the document keeps what the method
  did to it before: an exception does not undo the assignments made so far.
\<close>

datatype 'a outcome = Returned "'a BlipDocument" | Raised error "'a BlipDocument"

text \<open>Statements in sequence: an exception ends the sequence.\<close>

fun and_then :: "'a outcome \<Rightarrow> ('a BlipDocument \<Rightarrow> 'a outcome) \<Rightarrow> 'a outcome" where
  "and_then (Returned self) f = f self"
| "and_then (Raised e self) f = Raised e self"

text \<open>The document an outcome leaves, whether the method returned or raised.\<close>

fun document_of :: "'a outcome \<Rightarrow> 'a BlipDocument" where
  "document_of (Returned self) = self"
| "document_of (Raised e self) = self"

text \<open>
  \<open>deque.rotate(n)\<close> converts its argument to a C index (\<open>Py_ssize_t\<close>) and raises
  \<open>OverflowError\<close> when it does not fit, before it looks at the deque; the bounds are those
  of a 64-bit build. Otherwise it rotates \<open>n\<close> steps to the right, to the left for a
  negative \<open>n\<close>, and leaves an empty deque alone. \<^const>\<open>rotate\<close> of the list library
  rotates to the left.
\<close>

definition PY_SSIZE_T_MAX :: int where
  "PY_SSIZE_T_MAX = 2 ^ 63 - 1"

definition PY_SSIZE_T_MIN :: int where
  "PY_SSIZE_T_MIN = - (2 ^ 63)"

definition deque_rotate :: "int \<Rightarrow> 'a list \<Rightarrow> error + 'a list" where
  "deque_rotate n xs =
     (if n < PY_SSIZE_T_MIN \<or> PY_SSIZE_T_MAX < n then Inl OverflowError
      else if xs = [] then Inr []
      else Inr (rotate (nat ((- n) mod int (length xs))) xs))"

text \<open>
  The first argument of \<open>insert_characters\<close> is "a string or a list/iterable": a sequence,
  which has a length, or an iterator such as a generator, on which \<open>len\<close> raises
  \<open>TypeError\<close>.
\<close>

datatype 'a iterable = Sequence "'a list" | Iterator "'a list"

fun items :: "'a iterable \<Rightarrow> 'a list" where
  "items (Sequence xs) = xs"
| "items (Iterator xs) = xs"

fun len :: "'a iterable \<Rightarrow> error + int" where
  "len (Sequence xs) = Inr (int (length xs))"
| "len (Iterator xs) = Inl TypeError"

text \<open>
  \<open>self.annotations.attr(...)\<close>: the attribute is looked up before anything is called, and
  before the arguments of the call are evaluated. \<open>BlipDocument\<close> asks for the four names
  \<open>rotate\<close>, \<open>extend\<close>, \<open>append\<close> and \<open>popleft\<close> only; the class defines none of them,
  so the model has no method to run in the second branch and leaves the document as it is
  there.
\<close>

definition call_annotations :: "string \<Rightarrow> 'a BlipDocument \<Rightarrow> 'a outcome" where
  "call_annotations attr self =
     (case Annotations_getattr attr of
        Inl e \<Rightarrow> Raised e self
      | Inr method \<Rightarrow> Returned self)"

text \<open>\<open>BlipDocument.fix_rotation\<close>, blip.py lines 387 to 393.\<close>

definition fix_rotation :: "'a BlipDocument \<Rightarrow> 'a outcome" where
  "fix_rotation self =
     (case deque_rotate (rotation self) (content self) of
        Inl e \<Rightarrow> Raised e self
      | Inr rotated \<Rightarrow>
          and_then (call_annotations ''rotate'' (self\<lparr>content := rotated\<rparr>))
            (\<lambda>self1. Returned (self1\<lparr>rotation := 0\<rparr>)))"

text \<open>\<open>BlipDocument.retain\<close>, blip.py lines 395 to 399.\<close>

definition retain :: "int \<Rightarrow> 'a BlipDocument \<Rightarrow> 'a outcome" where
  "retain n self =
     (let self1 = self\<lparr>rotation := rotation self + n\<rparr> in
      case deque_rotate (- n) (content self1) of
        Inl e \<Rightarrow> Raised e self1
      | Inr rotated \<Rightarrow> call_annotations ''rotate'' (self1\<lparr>content := rotated\<rparr>))"

text \<open>
  \<open>BlipDocument.insert_characters\<close>, blip.py lines 401 to 414. The second argument is the
  dictionary of annotations or \<open>None\<close>. In the last statement the attribute
  \<open>self.annotations.extend\<close> is looked up before \<open>len(value)\<close> is evaluated.
\<close>

definition insert_characters ::
  "'a iterable \<Rightarrow> (string \<times> string) list option \<Rightarrow> 'a BlipDocument \<Rightarrow> 'a outcome" where
  "insert_characters units annots self =
     (let self1 = self\<lparr>content := content self @ items units\<rparr> in
      if rotation self1 \<noteq> 0 then
        (case len units of
           Inl e \<Rightarrow> Raised e self1
         | Inr n \<Rightarrow> call_annotations ''extend'' (self1\<lparr>rotation := rotation self1 + n\<rparr>))
      else call_annotations ''extend'' self1)"

text \<open>\<open>BlipDocument.insert\<close>, blip.py lines 416 to 426.\<close>

definition insert_element ::
  "'a \<Rightarrow> (string \<times> string) list option \<Rightarrow> 'a BlipDocument \<Rightarrow> 'a outcome" where
  "insert_element element annots self =
     and_then
       (call_annotations ''append'' (self\<lparr>content := content self @ [element]\<rparr>))
       (\<lambda>self1. Returned (if rotation self1 \<noteq> 0
                            then self1\<lparr>rotation := rotation self1 + 1\<rparr>
                            else self1))"

text \<open>
  \<open>BlipDocument.delete\<close>, blip.py lines 428 to 432. \<open>deque.popleft()\<close> raises
  \<open>IndexError\<close> on an empty deque; \<open>range(n)\<close> is empty for \<open>n \<le> 0\<close>.
\<close>

fun popleft_times :: "nat \<Rightarrow> 'a BlipDocument \<Rightarrow> 'a outcome" where
  "popleft_times 0 self = Returned self"
| "popleft_times (Suc k) self =
     (case content self of
        [] \<Rightarrow> Raised IndexError self
      | x # xs \<Rightarrow> popleft_times k (self\<lparr>content := xs\<rparr>))"

definition delete :: "int \<Rightarrow> 'a BlipDocument \<Rightarrow> 'a outcome" where
  "delete n self = and_then (popleft_times (nat n) self) (call_annotations ''popleft'')"

text \<open>\<open>BlipDocument.complete\<close>, blip.py lines 434 to 437.\<close>

definition complete :: "'a BlipDocument \<Rightarrow> 'a outcome" where
  "complete self = and_then (fix_rotation self) Returned"

section \<open>Contributors\<close>

text \<open>
  \<open>Contributors\<close> subclasses \<open>list\<close> and overrides eight methods with \<open>pass\<close>, blip.py
  lines 439 to 456. Each of them is the list it leaves, which is the list it was given;
  they all return \<open>None\<close>.
\<close>

definition Contributors_delitem :: "'u list \<Rightarrow> int \<Rightarrow> 'u list" where
  "Contributors_delitem self arg = self"

definition Contributors_delslice :: "'u list \<Rightarrow> int \<Rightarrow> int \<Rightarrow> 'u list" where
  "Contributors_delslice self arg1 arg2 = self"

definition Contributors_setitem :: "'u list \<Rightarrow> int \<Rightarrow> 'u \<Rightarrow> 'u list" where
  "Contributors_setitem self arg1 arg2 = self"

definition Contributors_setslice :: "'u list \<Rightarrow> int \<Rightarrow> int \<Rightarrow> 'u list \<Rightarrow> 'u list" where
  "Contributors_setslice self arg1 arg2 arg3 = self"

definition Contributors_pop :: "'u list \<Rightarrow> int option \<Rightarrow> 'u list" where
  "Contributors_pop self arg = self"

definition Contributors_remove :: "'u list \<Rightarrow> 'u \<Rightarrow> 'u list" where
  "Contributors_remove self arg = self"

definition Contributors_sort :: "'u list \<Rightarrow> 'u list" where
  "Contributors_sort self = self"

definition Contributors_reverse :: "'u list \<Rightarrow> 'u list" where
  "Contributors_reverse self = self"

text \<open>
  The other methods of \<open>list\<close> that change the list are inherited as they are: \<open>append\<close>
  (the one \<open>Blip.__init__\<close> uses), \<open>insert\<close>, \<open>extend\<close>, \<open>__iadd__\<close> (\<open>c += xs\<close>),
  \<open>__imul__\<close> (\<open>c *= n\<close>) and \<open>__init__\<close>. An integer argument is converted to a C index
  and raises \<open>OverflowError\<close> when it does not fit.
\<close>

definition Contributors_append :: "'u list \<Rightarrow> 'u \<Rightarrow> 'u list" where
  "Contributors_append self x = self @ [x]"

text \<open>
  \<open>list.insert(index, object)\<close>: a negative index counts from the end, and an index
  beyond either end is moved to that end.
\<close>

definition Contributors_insert :: "'u list \<Rightarrow> int \<Rightarrow> 'u \<Rightarrow> error + 'u list" where
  "Contributors_insert self index x =
     (if index < PY_SSIZE_T_MIN \<or> PY_SSIZE_T_MAX < index then Inl OverflowError
      else
        let n = int (length self);
            w = (if index < 0 then index + n else index);
            w' = (if w < 0 then 0 else if n < w then n else w)
        in Inr (take (nat w') self @ [x] @ drop (nat w') self))"

definition Contributors_extend :: "'u list \<Rightarrow> 'u list \<Rightarrow> 'u list" where
  "Contributors_extend self xs = self @ xs"

definition Contributors_iadd :: "'u list \<Rightarrow> 'u list \<Rightarrow> 'u list" where
  "Contributors_iadd self xs = self @ xs"

text \<open>
  \<open>list.__imul__(n)\<close>: an empty list and \<open>n = 1\<close> change nothing, \<open>n < 1\<close> clears the
  list, and otherwise the list is repeated \<open>n\<close> times unless the new length would exceed
  the largest C index, which raises \<open>MemoryError\<close>.
\<close>

definition Contributors_imul :: "'u list \<Rightarrow> int \<Rightarrow> error + 'u list" where
  "Contributors_imul self n =
     (if n < PY_SSIZE_T_MIN \<or> PY_SSIZE_T_MAX < n then Inl OverflowError
      else if self = [] \<or> n = 1 then Inr self
      else if n < 1 then Inr []
      else if PY_SSIZE_T_MAX div n < int (length self) then Inl MemoryError
      else Inr (concat (replicate (nat n) self)))"

text \<open>\<open>list.__init__(iterable)\<close> empties the list and fills it from the iterable.\<close>

definition Contributors_init :: "'u list \<Rightarrow> 'u list \<Rightarrow> 'u list" where
  "Contributors_init self xs = xs"

text \<open>A call of one of these methods on a Contributors list.\<close>

datatype 'u contributors_call =
  Append 'u
| DelItem int
| DelSlice int int
| SetItem int 'u
| SetSlice int int "'u list"
| Pop "int option"
| Remove 'u
| Sort
| Reverse
| Insert int 'u
| Extend "'u list"
| IAdd "'u list"
| IMul int
| Init "'u list"

fun Contributors_call :: "'u list \<Rightarrow> 'u contributors_call \<Rightarrow> error + 'u list" where
  "Contributors_call self (Append x) = Inr (Contributors_append self x)"
| "Contributors_call self (DelItem i) = Inr (Contributors_delitem self i)"
| "Contributors_call self (DelSlice i j) = Inr (Contributors_delslice self i j)"
| "Contributors_call self (SetItem i x) = Inr (Contributors_setitem self i x)"
| "Contributors_call self (SetSlice i j xs) = Inr (Contributors_setslice self i j xs)"
| "Contributors_call self (Pop i) = Inr (Contributors_pop self i)"
| "Contributors_call self (Remove x) = Inr (Contributors_remove self x)"
| "Contributors_call self Sort = Inr (Contributors_sort self)"
| "Contributors_call self Reverse = Inr (Contributors_reverse self)"
| "Contributors_call self (Insert i x) = Contributors_insert self i x"
| "Contributors_call self (Extend xs) = Inr (Contributors_extend self xs)"
| "Contributors_call self (IAdd xs) = Inr (Contributors_iadd self xs)"
| "Contributors_call self (IMul n) = Contributors_imul self n"
| "Contributors_call self (Init xs) = Inr (Contributors_init self xs)"

text \<open>A sequence of calls; an exception ends it.\<close>

fun Contributors_calls :: "'u list \<Rightarrow> 'u contributors_call list \<Rightarrow> error + 'u list" where
  "Contributors_calls self [] = Inr self"
| "Contributors_calls self (c # calls) =
     (case Contributors_call self c of
        Inl e \<Rightarrow> Inl e
      | Inr self' \<Rightarrow> Contributors_calls self' calls)"

section \<open>Notions used in the properties\<close>

text \<open>
  \<open>same_key self\<close>: every reference in the set points into the store, and all stored
  annotations have the same name and the same value.
\<close>

definition same_key :: "Annotations \<Rightarrow> bool" where
  "same_key self \<longleftrightarrow>
     (\<forall>p\<in>snd ` set (data self). p < length (store self)) \<and>
     (\<forall>p\<in>snd ` set (data self). \<forall>q\<in>snd ` set (data self).
        name (store self ! p) = name (store self ! q) \<and>
        value' (store self ! p) = value' (store self ! q))"

text \<open>
  \<open>grown h h'\<close>: the store \<open>h'\<close> holds the objects of \<open>h\<close> with the same names and
  values, each range at least as wide as before.
\<close>

definition grown :: "store \<Rightarrow> store \<Rightarrow> bool" where
  "grown h h' \<longleftrightarrow>
     length h' = length h \<and>
     (\<forall>r<length h. name (h' ! r) = name (h ! r) \<and> value' (h' ! r) = value' (h ! r) \<and>
        start (h' ! r) \<le> start (h ! r) \<and> end' (h ! r) \<le> end' (h' ! r))"

text \<open>\<open>same_names h h'\<close>: the same number of objects, each with its name and value.\<close>

definition same_names :: "store \<Rightarrow> store \<Rightarrow> bool" where
  "same_names h h' \<longleftrightarrow>
     length h' = length h \<and>
     (\<forall>r. name (h' ! r) = name (h ! r) \<and> value' (h' ! r) = value' (h ! r))"

text \<open>
  \<open>current H h table\<close>: every entry of the table refers into the store and the hash kept
  with it is the hash of the object as it is now, as in a set none of whose elements has
  been assigned to since it was inserted.
\<close>

definition current :: "py_hash \<Rightarrow> store \<Rightarrow> table \<Rightarrow> bool" where
  "current H h table \<longleftrightarrow>
     (\<forall>(ehash, p)\<in>set table. p < length h \<and> ehash = annotation_hash H (h ! p))"

text \<open>\<open>collision_free H A\<close>: no two different annotations of \<open>A\<close> have the same hash.\<close>

definition collision_free :: "py_hash \<Rightarrow> Annotation set \<Rightarrow> bool" where
  "collision_free H A \<longleftrightarrow>
     (\<forall>a\<in>A. \<forall>b\<in>A. annotation_hash H a = annotation_hash H b \<longrightarrow> a = b)"

section \<open>Example data\<close>

text \<open>
  A hash for the examples. The hash of an integer is CPython's for an integer of small
  absolute value: the integer itself, except that \<open>hash(-1)\<close> is \<open>-2\<close>. The hashes of
  strings and tuples are stand-ins, a length and a polynomial in the hashes of the items.
\<close>

definition example_hash :: py_hash where
  "example_hash =
     \<lparr>hash_int = (\<lambda>n. if n = - 1 then - 2 else n),
      hash_str = (\<lambda>s. int (length s)),
      hash_tuple = foldl (\<lambda>x y. x * 1000003 + y) 3430008\<rparr>"

text \<open>The annotation \<open>(s, e, "b", "true")\<close> of the examples, and a document holding "ABCD".\<close>

definition b_true :: "int \<Rightarrow> int \<Rightarrow> Annotation" where
  "b_true s e = \<lparr>start = s, end' = e, name = ''b'', value' = ''true''\<rparr>"

definition abcd :: "char BlipDocument" where
  "abcd = BlipDocument_init\<lparr>content := ''ABCD''\<rparr>"

text \<open>
  A document holding "A" whose annotations are not empty: one annotation over the
  character, stored with its hash.
\<close>

definition annotated :: "char BlipDocument" where
  "annotated =
     \<lparr>content = ''A'',
      annotations = \<lparr>store = [b_true 0 1],
                      data = [(annotation_hash example_hash (b_true 0 1), 0)]\<rparr>,
      rotation = 0\<rparr>"

text \<open>
  The set of two annotations \<open>a\<close> and \<open>b\<close> as it is right after both were inserted: the
  two objects in the store, each entry with the hash of its object.
\<close>

definition pair_set :: "py_hash \<Rightarrow> Annotation \<Rightarrow> Annotation \<Rightarrow> Annotations" where
  "pair_set H a b = \<lparr>store = [a, b], data = [(annotation_hash H a, 0), (annotation_hash H b, 1)]\<rparr>"

section \<open>Properties of the annotation engine\<close>

subsection \<open>Set operations on a set whose hashes are current\<close>

text \<open>
  On two objects with the same attributes, the assignments of \<open>__eq__\<close> write back the
  values already held.
\<close>

lemma annotation_eq_same_fields:
  assumes "h ! p = h ! q"
  shows "annotation_eq h p q = (True, h)"
proof -
  have h1: "set_start h q (start (h ! p)) = h"
    by (simp add: set_start_def assms)
  have h2: "set_end h p (end' (h ! q)) = h"
    by (simp add: set_end_def assms [symmetric])
  have "annotation_eq h p q =
          (True, set_end (set_start h q (start (h ! p))) p
                   (end' (set_start h q (start (h ! p)) ! q)))"
    by (simp add: annotation_eq_def Let_def assms)
  then show ?thesis
    by (simp only: h1 h2)
qed


text \<open>
  When no two different annotations of the store have the same hash and the hashes kept
  in the table are current, a lookup compares only objects with the same attributes: it
  finds the first entry with the hash of the key and leaves the store as it is. The same
  follows for the operations built on it.
\<close>

lemma set_lookup_current:
  assumes "collision_free H (set h)" "current H h table" "key < length h"
  shows "set_lookup h table (annotation_hash H (h ! key)) key =
           (find (\<lambda>(ehash, entry). ehash = annotation_hash H (h ! key)) table, h)"
  using assms(2)
proof (induction table)
  case Nil
  show ?case by simp
next
  case (Cons e table)
  obtain ehash entry where e: "e = (ehash, entry)" by (cases e)
  from Cons.prems e have v: "entry < length h" and c: "ehash = annotation_hash H (h ! entry)"
    and t: "current H h table"
    by (auto simp: current_def)
  show ?case
  proof (cases "ehash = annotation_hash H (h ! key)")
    case False
    with Cons.IH [OF t] e show ?thesis by simp
  next
    case True
    with c have "annotation_hash H (h ! entry) = annotation_hash H (h ! key)" by simp
    with assms(1,3) v have "h ! entry = h ! key"
      unfolding collision_free_def by (meson nth_mem)
    then have "annotation_eq h entry key = (True, h)"
      by (rule annotation_eq_same_fields)
    with True e show ?thesis by simp
  qed
qed

lemma current_append:
  "current H h table \<Longrightarrow> key < length h \<Longrightarrow>
     current H h (table @ [(annotation_hash H (h ! key), key)])"
  by (auto simp: current_def)

lemma current_remove1: "current H h table \<Longrightarrow> current H h (remove1 e table)"
  unfolding current_def using notin_set_remove1 by fast

lemma current_extend: "current H h table \<Longrightarrow> current H (h @ [x]) table"
  by (auto simp: current_def nth_append)

lemma set_add_current:
  assumes "collision_free H (set h)" "current H h table" "key < length h"
  shows "snd (set_add H h table key) = h \<and> current H h (fst (set_add H h table key))"
  using assms current_append [OF assms(2,3)]
  by (simp add: set_add_def Let_def set_lookup_current split: option.split)

lemma set_of_current:
  assumes "collision_free H (set h)" "current H h table" "\<forall>key\<in>set keys. key < length h"
  shows "snd (set_of H h table keys) = h \<and> current H h (fst (set_of H h table keys))"
  using assms(2,3)
proof (induction keys arbitrary: table)
  case Nil
  then show ?case by simp
next
  case (Cons key keys)
  from Cons.prems have k: "key < length h" by simp
  from set_add_current [OF assms(1) Cons.prems(1) k]
  obtain t where t: "set_add H h table key = (t, h)" and c: "current H h t"
    by (cases "set_add H h table key") auto
  from Cons.IH [OF c] Cons.prems(2) t show ?case by simp
qed

lemma symmetric_difference_update_current:
  assumes "collision_free H (set h)" "current H h table" "current H h other"
  shows "snd (symmetric_difference_update h table other) = h"
  using assms(2,3)
proof (induction other arbitrary: table)
  case Nil
  show ?case by simp
next
  case (Cons e other)
  obtain khash key where e: "e = (khash, key)" by (cases e)
  from Cons.prems(2) e have k: "key < length h" and kh: "khash = annotation_hash H (h ! key)"
    and o: "current H h other"
    by (auto simp: current_def)
  have l: "set_lookup h table khash key =
             (find (\<lambda>(ehash, entry). ehash = annotation_hash H (h ! key)) table, h)"
    unfolding kh by (rule set_lookup_current [OF assms(1) Cons.prems(1) k])
  show ?case
  proof (cases "find (\<lambda>(ehash, entry). ehash = annotation_hash H (h ! key)) table")
    case None
    have "current H h (table @ [(khash, key)])"
      unfolding kh by (rule current_append [OF Cons.prems(1) k])
    from Cons.IH [OF this o] l None e show ?thesis by simp
  next
    case (Some x)
    have "current H h (remove1 x table)"
      by (rule current_remove1 [OF Cons.prems(1)])
    from Cons.IH [OF this o] l Some e show ?thesis by simp
  qed
qed

lemma collision_free_subset: "collision_free H A \<Longrightarrow> B \<subseteq> A \<Longrightarrow> collision_free H B"
  unfolding collision_free_def by blast


subsection \<open>Names and values are never assigned to\<close>

lemma set_field_names:
  "name (set_start h p v ! r) = name (h ! r)"
  "value' (set_start h p v ! r) = value' (h ! r)"
  "name (set_end h p v ! r) = name (h ! r)"
  "value' (set_end h p v ! r) = value' (h ! r)"
  "length (set_start h p v) = length h"
  "length (set_end h p v) = length h"
proof -
  have u: "f (h[p := x] ! r) = f (h ! r)" if "f x = f (h ! p)" for f :: "Annotation \<Rightarrow> string" and x
  proof (cases "p < length h \<and> r = p")
    case True
    with that show ?thesis by simp
  next
    case False
    then show ?thesis by (cases "p < length h") (auto simp: list_update_beyond)
  qed
  show "name (set_start h p v ! r) = name (h ! r)"
    unfolding set_start_def by (rule u) simp
  show "value' (set_start h p v ! r) = value' (h ! r)"
    unfolding set_start_def by (rule u) simp
  show "name (set_end h p v ! r) = name (h ! r)"
    unfolding set_end_def by (rule u) simp
  show "value' (set_end h p v ! r) = value' (h ! r)"
    unfolding set_end_def by (rule u) simp
  show "length (set_start h p v) = length h" by (simp add: set_start_def)
  show "length (set_end h p v) = length h" by (simp add: set_end_def)
qed

lemma same_names_refl: "same_names h h"
  by (simp add: same_names_def)

lemma same_names_trans: "same_names h h1 \<Longrightarrow> same_names h1 h2 \<Longrightarrow> same_names h h2"
  by (simp add: same_names_def)

lemma annotation_eq_same_names: "same_names h (snd (annotation_eq h self y))"
  by (simp add: same_names_def annotation_eq_def Let_def set_field_names)

lemma set_lookup_same_names: "same_names h (snd (set_lookup h table khash key))"
proof (induction table arbitrary: h)
  case Nil
  show ?case by (simp add: same_names_refl)
next
  case (Cons e table)
  obtain ehash entry where e: "e = (ehash, entry)" by (cases e)
  show ?case
  proof (cases "ehash = khash \<and> entry \<noteq> key")
    case False
    then show ?thesis using e Cons.IH [of h] by (auto simp: same_names_refl)
  next
    case True
    obtain b h' where a: "annotation_eq h entry key = (b, h')"
      by (cases "annotation_eq h entry key")
    then have s: "same_names h h'"
      using annotation_eq_same_names [of h entry key] by simp
    show ?thesis
    proof (cases b)
      case True
      with \<open>ehash = khash \<and> entry \<noteq> key\<close> e a s show ?thesis by simp
    next
      case False
      with \<open>ehash = khash \<and> entry \<noteq> key\<close> e a
      have "snd (set_lookup h (e # table) khash key) = snd (set_lookup h' table khash key)"
        by simp
      with same_names_trans [OF s Cons.IH [of h']] show ?thesis by simp
    qed
  qed
qed

lemma set_add_same_names: "same_names h (snd (set_add H h table key))"
  using set_lookup_same_names [of h table "annotation_hash H (h ! key)" key]
  by (cases "set_lookup h table (annotation_hash H (h ! key)) key")
     (auto simp: set_add_def Let_def split: option.split)

lemma set_of_same_names: "same_names h (snd (set_of H h table keys))"
proof (induction keys arbitrary: h table)
  case Nil
  show ?case by (simp add: same_names_refl)
next
  case (Cons key keys)
  obtain t h' where a: "set_add H h table key = (t, h')"
    by (cases "set_add H h table key")
  then have "same_names h h'"
    using set_add_same_names [of h H table key] by simp
  from same_names_trans [OF this Cons.IH [of h' t]] a show ?case by simp
qed

lemma symmetric_difference_update_same_names:
  "same_names h (snd (symmetric_difference_update h table other))"
proof (induction other arbitrary: h table)
  case Nil
  show ?case by (simp add: same_names_refl)
next
  case (Cons e other)
  obtain khash key where e: "e = (khash, key)" by (cases e)
  obtain r h' where a: "set_lookup h table khash key = (r, h')"
    by (cases "set_lookup h table khash key")
  then have s: "same_names h h'"
    using set_lookup_same_names [of h table khash key] by simp
  show ?case
  proof (cases r)
    case None
    with same_names_trans [OF s Cons.IH [of h' "table @ [(khash, key)]"]] a e
    show ?thesis by simp
  next
    case (Some x)
    with same_names_trans [OF s Cons.IH [of h' "remove1 x table"]] a e
    show ?thesis by simp
  qed
qed


subsection \<open>What \<open>_resolve_pair\<close> computes\<close>

text \<open>
  With the arguments already in the order of their ends, the method either raises or
  allocates the annotation \<open>(annotation_1.start, annotation_2.end)\<close>; the branch that
  removes \<open>annotation_1\<close> and returns \<open>annotation_2\<close> is never taken, because its
  condition is only tested when \<open>annotation_1.end >= annotation_2.start\<close> fails, inside a
  branch where \<open>annotation_2.start < annotation_1.end\<close> holds.
\<close>

lemma resolve_pair_swap:
  "end' (store self ! q) < end' (store self ! p) \<Longrightarrow>
     resolve_pair H self p q = resolve_pair H self q p"
  by (simp add: resolve_pair_def Let_def)

lemma resolve_pair_ordered:
  assumes "\<not> end' (store self ! q) < end' (store self ! p)"
  shows "resolve_pair H self p q =
     (if start (store self ! q) < end' (store self ! p) then
        (let h1 = store self @
                    [\<lparr>start = start (store self ! p), end' = end' (store self ! q),
                      name = name (store self ! p), value' = value' (store self ! p)\<rparr>];
             other = set_of H h1 [] [p, q, length (store self)];
             result = symmetric_difference_update (snd other) (data self) (fst other)
         in Inr (length (store self), \<lparr>store = snd result, data = fst result\<rparr>))
      else Inl CannotResolve)"
  using assms
  by (simp add: resolve_pair_def Let_def case_prod_beta del: set_of.simps)

lemma resolve_pair_ordered_names:
  assumes "\<not> end' (store self ! q) < end' (store self ! p)"
  shows "resolve_pair H self p q = Inl CannotResolve \<or>
     (\<exists>self'. resolve_pair H self p q = Inr (length (store self), self') \<and>
        length (store self') = Suc (length (store self)) \<and>
        (\<forall>r<length (store self).
           name (store self' ! r) = name (store self ! r) \<and>
           value' (store self' ! r) = value' (store self ! r)))"
proof (cases "start (store self ! q) < end' (store self ! p)")
  case False
  then show ?thesis by (simp add: resolve_pair_ordered [OF assms])
next
  case True
  define h1 where "h1 = store self @
                    [\<lparr>start = start (store self ! p), end' = end' (store self ! q),
                      name = name (store self ! p), value' = value' (store self ! p)\<rparr>]"
  define other where "other = set_of H h1 [] [p, q, length (store self)]"
  define result where "result = symmetric_difference_update (snd other) (data self) (fst other)"
  have r: "resolve_pair H self p q =
             Inr (length (store self), \<lparr>store = snd result, data = fst result\<rparr>)"
    using True by (simp add: resolve_pair_ordered [OF assms] Let_def h1_def other_def result_def)
  have "same_names h1 (snd other)"
    unfolding other_def by (rule set_of_same_names)
  moreover have "same_names (snd other) (snd result)"
    unfolding result_def by (rule symmetric_difference_update_same_names)
  ultimately have s: "same_names h1 (snd result)"
    by (rule same_names_trans)
  then have l: "length (snd result) = Suc (length (store self))"
    by (simp add: same_names_def h1_def)
  have "name (snd result ! r) = name (store self ! r) \<and>
        value' (snd result ! r) = value' (store self ! r)" if "r < length (store self)" for r
  proof -
    from s have "name (snd result ! r) = name (h1 ! r) \<and> value' (snd result ! r) = value' (h1 ! r)"
      by (simp add: same_names_def)
    with that show ?thesis by (simp add: h1_def nth_append)
  qed
  with r l show ?thesis by simp
qed

lemma resolve_pair_names:
  "resolve_pair H self p q = Inl CannotResolve \<or>
     (\<exists>self'. resolve_pair H self p q = Inr (length (store self), self') \<and>
        length (store self') = Suc (length (store self)) \<and>
        (\<forall>r<length (store self).
           name (store self' ! r) = name (store self ! r) \<and>
           value' (store self' ! r) = value' (store self ! r)))"
proof (cases "end' (store self ! q) < end' (store self ! p)")
  case False
  then show ?thesis by (rule resolve_pair_ordered_names)
next
  case True
  then have "\<not> end' (store self ! p) < end' (store self ! q)" by simp
  from resolve_pair_ordered_names [OF this, of H] show ?thesis
    unfolding resolve_pair_swap [OF True] .
qed

lemma resolve_pair_ordered_frame:
  assumes "\<not> end' (store self ! q) < end' (store self ! p)"
    and "p < length (store self)" "q < length (store self)"
    and "current H (store self) (data self)"
    and "collision_free H (set (store self) \<union>
           {\<lparr>start = start (store self ! p), end' = end' (store self ! q),
             name = name (store self ! p), value' = value' (store self ! p)\<rparr>})"
  shows "resolve_pair H self p q = Inl CannotResolve \<or>
     (\<exists>d. resolve_pair H self p q =
        Inr (length (store self),
             \<lparr>store = store self @
                [\<lparr>start = start (store self ! p), end' = end' (store self ! q),
                  name = name (store self ! p), value' = value' (store self ! p)\<rparr>],
              data = d\<rparr>))"
proof (cases "start (store self ! q) < end' (store self ! p)")
  case False
  then show ?thesis by (simp add: resolve_pair_ordered [OF assms(1)])
next
  case True
  define h1 where "h1 = store self @
                    [\<lparr>start = start (store self ! p), end' = end' (store self ! q),
                      name = name (store self ! p), value' = value' (store self ! p)\<rparr>]"
  define other where "other = set_of H h1 [] [p, q, length (store self)]"
  define result where "result = symmetric_difference_update (snd other) (data self) (fst other)"
  have r: "resolve_pair H self p q =
             Inr (length (store self), \<lparr>store = snd result, data = fst result\<rparr>)"
    using True by (simp add: resolve_pair_ordered [OF assms(1)] Let_def h1_def other_def result_def)
  have cf: "collision_free H (set h1)"
    using assms(5) by (simp add: h1_def Un_commute)
  have k: "\<forall>key\<in>set [p, q, length (store self)]. key < length h1"
    using assms(2,3) by (simp add: h1_def)
  have e: "current H h1 []" by (simp add: current_def)
  from set_of_current [OF cf e k]
  have o: "snd other = h1" "current H h1 (fst other)"
    by (simp_all add: other_def)
  have d: "current H h1 (data self)"
    unfolding h1_def by (rule current_extend [OF assms(4)])
  have "snd result = h1"
    unfolding result_def o(1) by (rule symmetric_difference_update_current [OF cf d o(2)])
  with r show ?thesis by (simp add: h1_def)
qed

lemma resolve_pair_frame:
  assumes "p < length (store st)" "q < length (store st)"
    and "current H (store st) (data st)"
    and "collision_free H (set (store st) \<union>
           {\<lparr>start = start (store st ! p), end' = end' (store st ! q),
             name = name (store st ! p), value' = value' (store st ! p)\<rparr>,
            \<lparr>start = start (store st ! q), end' = end' (store st ! p),
             name = name (store st ! q), value' = value' (store st ! q)\<rparr>})"
  shows "resolve_pair H st p q = Inl CannotResolve \<or>
     (\<exists>new d. resolve_pair H st p q =
        Inr (length (store st), \<lparr>store = store st @ [new], data = d\<rparr>))"
proof (cases "end' (store st ! q) < end' (store st ! p)")
  case False
  have "collision_free H (set (store st) \<union>
           {\<lparr>start = start (store st ! p), end' = end' (store st ! q),
             name = name (store st ! p), value' = value' (store st ! p)\<rparr>})"
    by (rule collision_free_subset [OF assms(4)]) auto
  from resolve_pair_ordered_frame [OF False assms(1,2,3) this] show ?thesis by blast
next
  case True
  then have 1: "\<not> end' (store st ! p) < end' (store st ! q)" by simp
  have "collision_free H (set (store st) \<union>
           {\<lparr>start = start (store st ! q), end' = end' (store st ! p),
             name = name (store st ! q), value' = value' (store st ! q)\<rparr>})"
    by (rule collision_free_subset [OF assms(4)]) auto
  from resolve_pair_ordered_frame [OF 1 assms(2,1,3) this] show ?thesis
    unfolding resolve_pair_swap [OF True] by blast
qed


text \<open>
  When the set holds exactly the two arguments and the three annotations involved have
  three different hashes, the symmetric difference with
  \<open>{annotation_1, annotation_2, new_annotation}\<close> leaves the new annotation alone in the
  set.
\<close>

lemma pair_replaced:
  assumes "p < length h" "q < length h"
    and "annotation_hash H (h ! p) \<noteq> annotation_hash H (h ! q)"
    and "annotation_hash H x \<noteq> annotation_hash H (h ! p)"
    and "annotation_hash H x \<noteq> annotation_hash H (h ! q)"
    and "d = [(annotation_hash H (h ! p), p), (annotation_hash H (h ! q), q)] \<or>
         d = [(annotation_hash H (h ! q), q), (annotation_hash H (h ! p), p)]"
  shows "symmetric_difference_update (h @ [x]) d
           (fst (set_of H (h @ [x]) [] [p, q, length h])) =
         ([(annotation_hash H x, length h)], h @ [x])"
proof -
  have ne: "p \<noteq> q" using assms(3) by auto
  have s: "annotation_hash H (h ! q) \<noteq> annotation_hash H (h ! p)"
    "annotation_hash H (h ! p) \<noteq> annotation_hash H x"
    "annotation_hash H (h ! q) \<noteq> annotation_hash H x"
    using assms(3-5) by simp_all
  show ?thesis
    using assms ne s
    by (auto simp: set_add_def Let_def nth_append)
qed


text \<open>
  What does hold of merging a pair of equal name and value whose ranges overlap while
  neither contains the other, called directly on a set that holds exactly the pair, with
  current hashes and no collision among the pair and its envelope: the envelope is
  allocated, returned, and left alone in the set.
\<close>

lemma resolve_pair_overlap_envelope:
  assumes "p < length (store self)" "q < length (store self)"
    and "store self ! p = a" "store self ! q = b"
    and "name a = name b" "value' a = value' b"
    and "start a < end' b" "start b < end' a"
    and "\<not> (start b \<le> start a \<and> end' a \<le> end' b)"
    and "\<not> (start a \<le> start b \<and> end' b \<le> end' a)"
    and "data self = [(annotation_hash H a, p), (annotation_hash H b, q)] \<or>
         data self = [(annotation_hash H b, q), (annotation_hash H a, p)]"
    and "collision_free H
           {a, b, \<lparr>start = min (start a) (start b), end' = max (end' a) (end' b),
                   name = name a, value' = value' a\<rparr>}"
  shows "resolve_pair H self p q =
           Inr (length (store self),
                \<lparr>store = store self @
                   [\<lparr>start = min (start a) (start b), end' = max (end' a) (end' b),
                     name = name a, value' = value' a\<rparr>],
                 data = [(annotation_hash H
                            \<lparr>start = min (start a) (start b), end' = max (end' a) (end' b),
                              name = name a, value' = value' a\<rparr>,
                          length (store self))]\<rparr>)"
proof (cases "end' b < end' a")
  case False
  with assms have o: "start a < start b" "end' a < end' b" by auto
  then have m: "min (start a) (start b) = start a" "max (end' a) (end' b) = end' b" by auto
  let ?x = "\<lparr>start = start a, end' = end' b, name = name a, value' = value' a\<rparr>"
  have "end' ?x \<noteq> end' a" "start ?x \<noteq> start b" using o by simp_all
  then have d: "a \<noteq> b" "?x \<noteq> a" "?x \<noteq> b" using o by (auto simp del: Annotation.simps)
  have n: "annotation_hash H (store self ! p) \<noteq> annotation_hash H (store self ! q)"
    "annotation_hash H ?x \<noteq> annotation_hash H (store self ! p)"
    "annotation_hash H ?x \<noteq> annotation_hash H (store self ! q)"
    using assms(12) d unfolding collision_free_def m assms(3,4) by blast+
  have 1: "\<not> end' (store self ! q) < end' (store self ! p)" using False assms(3,4) by simp
  have 2: "start (store self ! q) < end' (store self ! p)" using assms(3,4,8) by simp
  have dd: "data self = [(annotation_hash H (store self ! p), p), (annotation_hash H (store self ! q), q)] \<or>
         data self = [(annotation_hash H (store self ! q), q), (annotation_hash H (store self ! p), p)]"
    using assms(11) by (simp add: assms(3,4))
  have x: "\<lparr>start = start (store self ! p), end' = end' (store self ! q),
            name = name (store self ! p), value' = value' (store self ! p)\<rparr> = ?x"
    by (simp add: assms(3,4))
  have 3: "snd (set_of H (store self @ [?x]) [] [p, q, length (store self)]) = store self @ [?x]"
    using assms(1,2) n
    by (auto simp: set_add_def Let_def nth_append)
  show ?thesis
    unfolding m resolve_pair_ordered [OF 1] x
    using 2 3 pair_replaced [OF assms(1,2) n dd]
    by (simp add: Let_def del: set_of.simps)
next
  case True
  with assms have o: "start b < start a" by auto
  then have m: "min (start a) (start b) = start b" "max (end' a) (end' b) = end' a"
    using True by auto
  let ?x = "\<lparr>start = start b, end' = end' a, name = name b, value' = value' b\<rparr>"
  have xx: "\<lparr>start = start b, end' = end' a, name = name a, value' = value' a\<rparr> = ?x"
    using assms(5,6) by simp
  have "start ?x \<noteq> start a" "end' ?x \<noteq> end' b" using o True by simp_all
  then have d: "a \<noteq> b" "?x \<noteq> a" "?x \<noteq> b" using o by (auto simp del: Annotation.simps)
  have n: "annotation_hash H (store self ! q) \<noteq> annotation_hash H (store self ! p)"
    "annotation_hash H ?x \<noteq> annotation_hash H (store self ! q)"
    "annotation_hash H ?x \<noteq> annotation_hash H (store self ! p)"
    using assms(12) d unfolding collision_free_def m assms(3,4) xx by blast+
  have 1: "\<not> end' (store self ! p) < end' (store self ! q)" using True assms(3,4) by simp
  have 0: "end' (store self ! q) < end' (store self ! p)" using True assms(3,4) by simp
  have 2: "start (store self ! p) < end' (store self ! q)" using assms(3,4,7) by simp
  have dd: "data self = [(annotation_hash H (store self ! q), q), (annotation_hash H (store self ! p), p)] \<or>
         data self = [(annotation_hash H (store self ! p), p), (annotation_hash H (store self ! q), q)]"
    using assms(11) by (auto simp: assms(3,4))
  have x: "\<lparr>start = start (store self ! q), end' = end' (store self ! p),
            name = name (store self ! q), value' = value' (store self ! q)\<rparr> = ?x"
    by (simp add: assms(3,4))
  have 3: "snd (set_of H (store self @ [?x]) [] [q, p, length (store self)]) = store self @ [?x]"
    using assms(1,2) n
    by (auto simp: set_add_def Let_def nth_append)
  show ?thesis
    unfolding m xx resolve_pair_swap [OF 0] resolve_pair_ordered [OF 1] x
    using 2 3 pair_replaced [OF assms(2,1) n dd]
    by (simp add: Let_def del: set_of.simps)
qed


subsection \<open>Merging a pair\<close>

text \<open>
  Claim C1. The claim is that merging a pair in which one range contains the other keeps
  the containing annotation and discards the contained one, so that resolving
  \<open>{(0,5,"b","true"), (1,3,"b","true")}\<close> leaves \<open>{(0,5,"b","true")}\<close>. The code does not
  do this: on that pair, in either order of the arguments and for every hash that tells
  the three annotations involved apart, \<open>_resolve_pair\<close> returns a new annotation
  \<open>(1,5,"b","true")\<close> and leaves it alone in the set, so the container is gone and
  position 0 is no longer covered.
\<close>

theorem resolve_pair_containment_example:
  assumes "collision_free H {b_true 0 5, b_true 1 3, b_true 1 5}"
  shows "resolve_pair H (pair_set H (b_true 0 5) (b_true 1 3)) 0 1 =
           Inr (2, \<lparr>store = [b_true 0 5, b_true 1 3, b_true 1 5],
                    data = [(annotation_hash H (b_true 1 5), 2)]\<rparr>) \<and>
         resolve_pair H (pair_set H (b_true 0 5) (b_true 1 3)) 1 0 =
           Inr (2, \<lparr>store = [b_true 0 5, b_true 1 3, b_true 1 5],
                    data = [(annotation_hash H (b_true 1 5), 2)]\<rparr>) \<and>
         Annotations_iter \<lparr>store = [b_true 0 5, b_true 1 3, b_true 1 5],
                           data = [(annotation_hash H (b_true 1 5), 2)]\<rparr> = [b_true 1 5]"
proof -
  have n: "annotation_hash H (b_true 0 5) \<noteq> annotation_hash H (b_true 1 3)"
    "annotation_hash H (b_true 1 3) \<noteq> annotation_hash H (b_true 0 5)"
    "annotation_hash H (b_true 1 5) \<noteq> annotation_hash H (b_true 1 3)"
    "annotation_hash H (b_true 1 3) \<noteq> annotation_hash H (b_true 1 5)"
    "annotation_hash H (b_true 1 5) \<noteq> annotation_hash H (b_true 0 5)"
    "annotation_hash H (b_true 0 5) \<noteq> annotation_hash H (b_true 1 5)"
    using assms by (auto simp: collision_free_def b_true_def)
  have b: "\<lparr>start = 1, end' = 5, name = ''b'', value' = ''true''\<rparr> = b_true 1 5"
    by (simp add: b_true_def)
  have f: "start (b_true s e) = s" "end' (b_true s e) = e" "name (b_true s e) = ''b''"
    "value' (b_true s e) = ''true''" for s e
    by (simp_all add: b_true_def)
  show ?thesis
    by (simp add: resolve_pair_def Let_def set_add_def pair_set_def Annotations_iter_def f b n)
qed

theorem resolve_pair_containment_example_witness:
  "resolve_pair example_hash (pair_set example_hash (b_true 0 5) (b_true 1 3)) 0 1 =
     Inr (2, \<lparr>store = [b_true 0 5, b_true 1 3, b_true 1 5],
              data = [(annotation_hash example_hash (b_true 1 5), 2)]\<rparr>) \<and>
   Annotations_iter \<lparr>store = [b_true 0 5, b_true 1 3, b_true 1 5],
                     data = [(annotation_hash example_hash (b_true 1 5), 2)]\<rparr> = [b_true 1 5]"
proof -
  have "collision_free example_hash {b_true 0 5, b_true 1 3, b_true 1 5}"
    by (simp add: collision_free_def annotation_hash_def example_hash_def b_true_def)
  from resolve_pair_containment_example [OF this] show ?thesis by simp
qed


text \<open>
  Claim C2. The claim is that two annotations of equal name and value whose ranges touch
  (\<open>b.start == a.end\<close>) are merged into their envelope. The code raises
  \<open>Exception("Cannot resolve")\<close> instead, for every such pair with \<open>b.start <= b.end\<close>:
  the guard \<open>annotation_2.start < annotation_1.end\<close> is strict. With the arguments
  exchanged the result is the same as soon as \<open>b\<close> is not a single point.
\<close>

theorem resolve_pair_touching:
  assumes "start (store self ! q) = end' (store self ! p)"
    and "start (store self ! q) \<le> end' (store self ! q)"
  shows "resolve_pair H self p q = Inl CannotResolve \<and>
         (start (store self ! q) < end' (store self ! q) \<longrightarrow>
            resolve_pair H self q p = Inl CannotResolve)"
  using assms by (simp add: resolve_pair_def Let_def)

theorem resolve_pair_touching_witness:
  "resolve_pair example_hash (pair_set example_hash (b_true 0 2) (b_true 2 4)) 0 1 =
     Inl CannotResolve \<and>
   resolve_pair example_hash (pair_set example_hash (b_true 0 2) (b_true 2 4)) 1 0 =
     Inl CannotResolve"
  using resolve_pair_touching
    [of "pair_set example_hash (b_true 0 2) (b_true 2 4)" 1 0 example_hash]
  by (simp add: b_true_def pair_set_def)


text \<open>
  Claim C8. The claim is that the result of merging two overlapping annotations of equal
  name and value does not depend on the order of the arguments. In the code it does when
  the two ends are equal: no exchange takes place then, and the new annotation takes the
  start of the first argument. \<open>(0,5,"b","true")\<close> and \<open>(2,5,"b","true")\<close>, with different
  hashes, give \<open>(0,5,"b","true")\<close> in one order and \<open>(2,5,"b","true")\<close> in the other. In
  both orders the new annotation equals its first argument, so the set built from the
  three objects has two elements and the symmetric difference empties \<open>_data\<close>.
\<close>

theorem resolve_pair_order_dependent:
  assumes "collision_free H {b_true 0 5, b_true 2 5}"
  shows "resolve_pair H (pair_set H (b_true 0 5) (b_true 2 5)) 0 1 =
           Inr (2, \<lparr>store = [b_true 0 5, b_true 2 5, b_true 0 5], data = []\<rparr>) \<and>
         resolve_pair H (pair_set H (b_true 0 5) (b_true 2 5)) 1 0 =
           Inr (2, \<lparr>store = [b_true 0 5, b_true 2 5, b_true 2 5], data = []\<rparr>) \<and>
         b_true 0 5 \<noteq> b_true 2 5"
proof -
  have n: "annotation_hash H (b_true 0 5) \<noteq> annotation_hash H (b_true 2 5)"
    "annotation_hash H (b_true 2 5) \<noteq> annotation_hash H (b_true 0 5)"
    using assms by (auto simp: collision_free_def b_true_def)
  have b: "\<lparr>start = 0, end' = 5, name = ''b'', value' = ''true''\<rparr> = b_true 0 5"
    "\<lparr>start = 2, end' = 5, name = ''b'', value' = ''true''\<rparr> = b_true 2 5"
    by (simp_all add: b_true_def)
  have f: "start (b_true s e) = s" "end' (b_true s e) = e" "name (b_true s e) = ''b''"
    "value' (b_true s e) = ''true''" for s e
    by (simp_all add: b_true_def)
  have e: "annotation_eq [b_true 0 5, b_true 2 5, b_true 0 5] 0 (Suc (Suc 0)) =
             (True, [b_true 0 5, b_true 2 5, b_true 0 5])"
    "annotation_eq [b_true 0 5, b_true 2 5, b_true 2 5] (Suc 0) (Suc (Suc 0)) =
             (True, [b_true 0 5, b_true 2 5, b_true 2 5])"
    by (simp_all add: annotation_eq_same_fields)
  have d: "b_true 0 5 \<noteq> b_true 2 5" by (simp add: b_true_def)
  show ?thesis
    by (simp add: resolve_pair_def Let_def set_add_def pair_set_def f b n e d)
qed

theorem resolve_pair_order_dependent_witness:
  "resolve_pair example_hash (pair_set example_hash (b_true 0 5) (b_true 2 5)) 0 1 =
     Inr (2, \<lparr>store = [b_true 0 5, b_true 2 5, b_true 0 5], data = []\<rparr>) \<and>
   resolve_pair example_hash (pair_set example_hash (b_true 0 5) (b_true 2 5)) 1 0 =
     Inr (2, \<lparr>store = [b_true 0 5, b_true 2 5, b_true 2 5], data = []\<rparr>)"
proof -
  have "collision_free example_hash {b_true 0 5, b_true 2 5}"
    by (simp add: collision_free_def annotation_hash_def example_hash_def b_true_def)
  from resolve_pair_order_dependent [OF this] show ?thesis by simp
qed


subsection \<open>Equality assigns to its operands\<close>

lemma annotation_eq_key:
  "fst (annotation_eq h self y) =
     (name (h ! self) = name (h ! y) \<and> value' (h ! self) = value' (h ! y))"
  by (auto simp: annotation_eq_def Let_def)

lemma annotation_eq_False:
  "\<not> fst (annotation_eq h self y) \<Longrightarrow> snd (annotation_eq h self y) = h"
  by (auto simp: annotation_eq_def Let_def split: if_splits)

lemma annotation_eq_length: "length (snd (annotation_eq h self y)) = length h"
  by (simp add: annotation_eq_def Let_def set_start_def set_end_def)

lemma annotation_eq_others:
  "r \<noteq> self \<Longrightarrow> r \<noteq> y \<Longrightarrow> snd (annotation_eq h self y) ! r = h ! r"
  by (simp add: annotation_eq_def Let_def set_start_def set_end_def)

lemma annotation_eq_name_value:
  assumes "self < length h" "y < length h"
  shows "name (snd (annotation_eq h self y) ! r) = name (h ! r) \<and>
         value' (snd (annotation_eq h self y) ! r) = value' (h ! r)"
  using assms
  by (cases "r = self"; cases "r = y")
     (simp_all add: annotation_eq_def Let_def set_start_def set_end_def nth_list_update)

lemma annotation_eq_envelope:
  assumes "self < length h" "y < length h" "fst (annotation_eq h self y)"
  shows "start (snd (annotation_eq h self y) ! self) = min (start (h ! self)) (start (h ! y)) \<and>
         end' (snd (annotation_eq h self y) ! self) = max (end' (h ! self)) (end' (h ! y)) \<and>
         start (snd (annotation_eq h self y) ! y) = min (start (h ! self)) (start (h ! y)) \<and>
         end' (snd (annotation_eq h self y) ! y) = max (end' (h ! self)) (end' (h ! y))"
  using assms
  by (cases "self = y")
     (auto simp: annotation_eq_def Let_def set_start_def set_end_def nth_list_update
       split: if_splits)


text \<open>
  Claim C3. As stated, the claim says that neither merging nor the equality comparison
  used during resolution changes a field of its operands. The comparison does:
  \<open>(0,2,"b","true") == (1,4,"b","true")\<close> returns \<open>True\<close> and leaves both operands as
  \<open>(0,4,"b","true")\<close>.
\<close>

theorem annotation_eq_mutates:
  "annotation_eq [b_true 0 2, b_true 1 4] 0 1 = (True, [b_true 0 4, b_true 0 4]) \<and>
   [b_true 0 4, b_true 0 4] \<noteq> [b_true 0 2, b_true 1 4]"
  by (simp add: annotation_eq_def set_start_def set_end_def b_true_def)


text \<open>
  Claim C3, amended. Neither \<open>__eq__\<close> nor \<open>_resolve_pair\<close> ever changes a name or a
  value. \<open>__eq__\<close> touches no object other than its operands; when their names or values
  differ it returns \<open>False\<close> and changes nothing; when names and values agree and the two
  ranges overlap it returns \<open>True\<close> and leaves both operands with the smaller of the two
  starts and the larger of the two ends. \<open>_resolve_pair\<close> either raises
  \<open>Exception("Cannot resolve")\<close> or returns a newly allocated annotation; and when the
  hashes kept in the set are current and no two different annotations among the stored
  ones and the two possible results of the merge have the same hash, the objects that
  existed before keep their starts and ends as well. Nothing is said here of \<open>__eq__\<close> on
  operands of equal name and value whose ranges do not overlap, nor of \<open>_resolve_pair\<close>
  where hashes collide.
\<close>

theorem eq_widens_resolve_pair_allocates:
  assumes "self < length h" and "y < length h"
    and "annotation_eq h self y = (result, h')"
  shows "length h' = length h \<and>
         (\<forall>r<length h. name (h' ! r) = name (h ! r) \<and> value' (h' ! r) = value' (h ! r)) \<and>
         (\<forall>r. r \<noteq> self \<and> r \<noteq> y \<longrightarrow> h' ! r = h ! r) \<and>
         (name (h ! self) \<noteq> name (h ! y) \<or> value' (h ! self) \<noteq> value' (h ! y) \<longrightarrow>
            \<not> result \<and> h' = h) \<and>
         (name (h ! self) = name (h ! y) \<and> value' (h ! self) = value' (h ! y) \<and>
          start (h ! self) < end' (h ! y) \<and> start (h ! y) < end' (h ! self) \<longrightarrow>
            result \<and>
            start (h' ! self) = min (start (h ! self)) (start (h ! y)) \<and>
            end' (h' ! self) = max (end' (h ! self)) (end' (h ! y)) \<and>
            start (h' ! y) = min (start (h ! self)) (start (h ! y)) \<and>
            end' (h' ! y) = max (end' (h ! self)) (end' (h ! y))) \<and>
         (resolve_pair H st p q = Inl CannotResolve \<or>
          (\<exists>st'. resolve_pair H st p q = Inr (length (store st), st') \<and>
             length (store st') = Suc (length (store st)) \<and>
             (\<forall>r<length (store st).
                name (store st' ! r) = name (store st ! r) \<and>
                value' (store st' ! r) = value' (store st ! r)))) \<and>
         (p < length (store st) \<and> q < length (store st) \<and>
          current H (store st) (data st) \<and>
          collision_free H (set (store st) \<union>
            {\<lparr>start = start (store st ! p), end' = end' (store st ! q),
              name = name (store st ! p), value' = value' (store st ! p)\<rparr>,
             \<lparr>start = start (store st ! q), end' = end' (store st ! p),
              name = name (store st ! q), value' = value' (store st ! q)\<rparr>}) \<longrightarrow>
            resolve_pair H st p q = Inl CannotResolve \<or>
            (\<exists>new d. resolve_pair H st p q =
               Inr (length (store st), \<lparr>store = store st @ [new], data = d\<rparr>)))"
proof -
  have r: "result = fst (annotation_eq h self y)" and h': "h' = snd (annotation_eq h self y)"
    using assms(3) by simp_all
  have 1: "length h' = length h"
    unfolding h' by (rule annotation_eq_length)
  have 2: "\<forall>r<length h. name (h' ! r) = name (h ! r) \<and> value' (h' ! r) = value' (h ! r)"
    unfolding h' using annotation_eq_name_value [OF assms(1,2)] by blast
  have 3: "\<forall>r. r \<noteq> self \<and> r \<noteq> y \<longrightarrow> h' ! r = h ! r"
    unfolding h' using annotation_eq_others [of _ self y h] by blast
  have 4: "name (h ! self) \<noteq> name (h ! y) \<or> value' (h ! self) \<noteq> value' (h ! y) \<longrightarrow>
            \<not> result \<and> h' = h"
    unfolding r h' using annotation_eq_key [of h self y] annotation_eq_False [of h self y]
    by blast
  have 5: "name (h ! self) = name (h ! y) \<and> value' (h ! self) = value' (h ! y) \<and>
          start (h ! self) < end' (h ! y) \<and> start (h ! y) < end' (h ! self) \<longrightarrow>
            result \<and>
            start (h' ! self) = min (start (h ! self)) (start (h ! y)) \<and>
            end' (h' ! self) = max (end' (h ! self)) (end' (h ! y)) \<and>
            start (h' ! y) = min (start (h ! self)) (start (h ! y)) \<and>
            end' (h' ! y) = max (end' (h ! self)) (end' (h ! y))"
    unfolding r h' using annotation_eq_key [of h self y] annotation_eq_envelope [OF assms(1,2)]
    by blast
  show ?thesis
    using 1 2 3 4 5 resolve_pair_names [of H st p q] resolve_pair_frame [of p st q H]
    by blast
qed

theorem eq_widens_resolve_pair_allocates_witness:
  "annotation_eq [b_true 0 2, b_true 1 4] 0 1 = (True, [b_true 0 4, b_true 0 4]) \<and>
   start ([b_true 0 4, b_true 0 4] ! 0) = min (start (b_true 0 2)) (start (b_true 1 4)) \<and>
   end' ([b_true 0 4, b_true 0 4] ! 0) = max (end' (b_true 0 2)) (end' (b_true 1 4)) \<and>
   name ([b_true 0 4, b_true 0 4] ! 0) = name (b_true 0 2) \<and>
   current example_hash [b_true 0 2, b_true 1 4]
     (data (pair_set example_hash (b_true 0 2) (b_true 1 4))) \<and>
   collision_free example_hash {b_true 0 2, b_true 1 4, b_true 0 4, b_true 1 2} \<and>
   (\<exists>new d. resolve_pair example_hash (pair_set example_hash (b_true 0 2) (b_true 1 4)) 0 1 =
      Inr (2, \<lparr>store = [b_true 0 2, b_true 1 4, new], data = d\<rparr>))"
proof -
  define S where "S = pair_set example_hash (b_true 0 2) (b_true 1 4)"
  have e: "annotation_eq [b_true 0 2, b_true 1 4] 0 1 = (True, [b_true 0 4, b_true 0 4])"
    by (simp add: annotation_eq_def set_start_def set_end_def b_true_def)
  have o: "resolve_pair example_hash S 0 1 \<noteq> Inl CannotResolve"
    by (simp add: S_def resolve_pair_def Let_def case_prod_beta b_true_def pair_set_def
        del: set_of.simps)
  have st: "store S = [b_true 0 2, b_true 1 4]"
    by (simp add: S_def pair_set_def)
  have c: "current example_hash (store S) (data S)"
    by (simp add: S_def current_def pair_set_def)
  have f: "collision_free example_hash {b_true 0 2, b_true 1 4, b_true 0 4, b_true 1 2}"
    by (simp add: collision_free_def annotation_hash_def example_hash_def b_true_def)
  have f': "collision_free example_hash (set (store S) \<union>
            {\<lparr>start = start (store S ! 0), end' = end' (store S ! 1),
              name = name (store S ! 0), value' = value' (store S ! 0)\<rparr>,
             \<lparr>start = start (store S ! 1), end' = end' (store S ! 0),
              name = name (store S ! 1), value' = value' (store S ! 1)\<rparr>})"
    by (rule collision_free_subset [OF f]) (auto simp: st b_true_def)
  have v: "(0::nat) < length [b_true 0 2, b_true 1 4]" "(1::nat) < length [b_true 0 2, b_true 1 4]"
    by simp_all
  have w: "(0::nat) < length (store S)" "(1::nat) < length (store S)"
    by (simp_all add: st)
  from eq_widens_resolve_pair_allocates [OF v e, of example_hash S 0 1] w c f'
  have "resolve_pair example_hash S 0 1 = Inl CannotResolve \<or>
        (\<exists>new d. resolve_pair example_hash S 0 1 =
           Inr (length (store S), \<lparr>store = store S @ [new], data = d\<rparr>))"
    by blast
  with o obtain new d where "resolve_pair example_hash S 0 1 =
           Inr (length (store S), \<lparr>store = store S @ [new], data = d\<rparr>)"
    by blast
  then have "\<exists>new d. resolve_pair example_hash (pair_set example_hash (b_true 0 2) (b_true 1 4)) 0 1 =
      Inr (2, \<lparr>store = [b_true 0 2, b_true 1 4, new], data = d\<rparr>)"
    by (auto simp: st S_def [symmetric])
  moreover have "current example_hash [b_true 0 2, b_true 1 4]
     (data (pair_set example_hash (b_true 0 2) (b_true 1 4)))"
    using c by (simp add: st S_def [symmetric])
  moreover have "start ([b_true 0 4, b_true 0 4] ! 0) = min (start (b_true 0 2)) (start (b_true 1 4))"
    "end' ([b_true 0 4, b_true 0 4] ! 0) = max (end' (b_true 0 2)) (end' (b_true 1 4))"
    "name ([b_true 0 4, b_true 0 4] ! 0) = name (b_true 0 2)"
    by (simp_all add: b_true_def)
  ultimately show ?thesis
    using e f by blast
qed


subsection \<open>Resolving a whole set\<close>

lemma grown_refl: "grown h h"
  by (simp add: grown_def)

lemma grown_trans:
  assumes "grown h h1" "grown h1 h2"
  shows "grown h h2"
proof -
  have l: "length h1 = length h" "length h2 = length h"
    using assms by (simp_all add: grown_def)
  have "name (h2 ! r) = name (h ! r) \<and> value' (h2 ! r) = value' (h ! r) \<and>
        start (h2 ! r) \<le> start (h ! r) \<and> end' (h ! r) \<le> end' (h2 ! r)"
    if r: "r < length h" for r
  proof -
    from assms(1) r have a: "name (h1 ! r) = name (h ! r)" "value' (h1 ! r) = value' (h ! r)"
      "start (h1 ! r) \<le> start (h ! r)" "end' (h ! r) \<le> end' (h1 ! r)"
      by (simp_all add: grown_def)
    from assms(2) r l have b: "name (h2 ! r) = name (h1 ! r)" "value' (h2 ! r) = value' (h1 ! r)"
      "start (h2 ! r) \<le> start (h1 ! r)" "end' (h1 ! r) \<le> end' (h2 ! r)"
      by (simp_all add: grown_def)
    from a b show ?thesis by simp
  qed
  with l show ?thesis by (simp add: grown_def)
qed

lemma annotation_eq_grown:
  assumes "self < length h" "y < length h"
  shows "grown h (snd (annotation_eq h self y))"
proof (cases "fst (annotation_eq h self y)")
  case False
  then show ?thesis by (simp add: annotation_eq_False grown_refl)
next
  case True
  have "start (snd (annotation_eq h self y) ! r) \<le> start (h ! r) \<and>
        end' (h ! r) \<le> end' (snd (annotation_eq h self y) ! r)" for r
    using annotation_eq_envelope [OF assms True] annotation_eq_others [of r self y h]
    by (cases "r = self"; cases "r = y") auto
  then show ?thesis
    using annotation_eq_name_value [OF assms] annotation_eq_length [of h self y]
    by (simp add: grown_def)
qed

lemma same_key_grown:
  assumes "same_key self" "grown (store self) h"
  shows "same_key (self\<lparr>store := h\<rparr>)"
proof -
  have v: "p < length (store self)" if "p \<in> snd ` set (data self)" for p
    using assms(1) that unfolding same_key_def by blast
  have k: "name (store self ! p) = name (store self ! q) \<and>
           value' (store self ! p) = value' (store self ! q)"
    if "p \<in> snd ` set (data self)" "q \<in> snd ` set (data self)" for p q
    using assms(1) that unfolding same_key_def by blast
  have g: "name (h ! r) = name (store self ! r) \<and> value' (h ! r) = value' (store self ! r)"
    if "r < length (store self)" for r
    using assms(2) that unfolding grown_def by blast
  have l: "length h = length (store self)"
    using assms(2) unfolding grown_def by blast
  have kk: "name (h ! p) = name (h ! q) \<and> value' (h ! p) = value' (h ! q)"
    if "p \<in> snd ` set (data self)" "q \<in> snd ` set (data self)" for p q
    using g [OF v [OF that(1)]] g [OF v [OF that(2)]] k [OF that] by simp
  have eqs: "data (self\<lparr>store := h\<rparr>) = data self" "store (self\<lparr>store := h\<rparr>) = h"
    by simp_all
  show ?thesis
    unfolding same_key_def eqs l using v kk by blast
qed

lemma resolve_inner_same_key:
  assumes "same_key self" "a1 \<in> snd ` set (data self)" "\<forall>j\<in>set js. j < length (data self)"
  shows "\<exists>h. resolve_inner H (length (data self)) js a1 self = Inr (self\<lparr>store := h\<rparr>) \<and>
             grown (store self) h"
  using assms
proof (induction js arbitrary: self)
  case Nil
  have "self\<lparr>store := store self\<rparr> = self" by simp
  then show ?case using grown_refl by (metis resolve_inner.simps(1))
next
  case (Cons j js)
  let ?a2 = "snd (data self ! j)"
  have a2: "?a2 \<in> snd ` set (data self)" using Cons.prems(3) by simp
  have v: "a1 < length (store self)" "?a2 < length (store self)"
    using Cons.prems(1,2) a2 unfolding same_key_def by blast+
  have "name (store self ! a1) = name (store self ! ?a2) \<and>
        value' (store self ! a1) = value' (store self ! ?a2)"
    using Cons.prems(1,2) a2 unfolding same_key_def by blast
  then have t: "fst (annotation_eq (store self) a1 ?a2)"
    by (simp only: annotation_eq_key)
  then obtain h1 where e: "annotation_eq (store self) a1 ?a2 = (True, h1)"
    by (cases "annotation_eq (store self) a1 ?a2") simp
  have g1: "grown (store self) h1"
    using annotation_eq_grown [OF v] e by simp
  let ?self1 = "self\<lparr>store := h1\<rparr>"
  have sk: "same_key ?self1" by (rule same_key_grown [OF Cons.prems(1) g1])
  have m: "a1 \<in> snd ` set (data ?self1)" "\<forall>j\<in>set js. j < length (data ?self1)"
    using Cons.prems(2,3) by simp_all
  from Cons.IH [OF sk m]
  obtain h where h: "resolve_inner H (length (data self)) js a1 ?self1 = Inr (self\<lparr>store := h\<rparr>)"
    and g2: "grown h1 h" by auto
  have "resolve_inner H (length (data self)) (j # js) a1 self = Inr (self\<lparr>store := h\<rparr>)"
    using e h by (simp add: Let_def)
  then show ?case using grown_trans [OF g1 g2] by blast
qed

lemma resolve_outer_same_key:
  assumes "same_key self" "\<forall>i\<in>set is. i < length (data self)"
  shows "\<exists>h. resolve_outer H (length (data self)) is self = Inr (self\<lparr>store := h\<rparr>) \<and>
             grown (store self) h"
  using assms
proof (induction "is" arbitrary: self)
  case Nil
  have "self\<lparr>store := store self\<rparr> = self" by simp
  then show ?case using grown_refl by (metis resolve_outer.simps(1))
next
  case (Cons i "is")
  have a1: "snd (data self ! i) \<in> snd ` set (data self)" using Cons.prems(2) by simp
  obtain h1 where h1: "resolve_inner H (length (data self)) [0..<length (data self)]
        (snd (data self ! i)) self = Inr (self\<lparr>store := h1\<rparr>)"
    and g1: "grown (store self) h1"
    using resolve_inner_same_key [OF Cons.prems(1) a1, of "[0..<length (data self)]"] by auto
  let ?self1 = "self\<lparr>store := h1\<rparr>"
  have sk: "same_key ?self1" by (rule same_key_grown [OF Cons.prems(1) g1])
  have "\<exists>h. resolve_outer H (length (data ?self1)) is ?self1 = Inr (?self1\<lparr>store := h\<rparr>) \<and>
             grown (store ?self1) h"
    using Cons.prems(2) by (intro Cons.IH [OF sk]) simp
  then obtain h where h: "resolve_outer H (length (data self)) is ?self1 = Inr (self\<lparr>store := h\<rparr>)"
    and g2: "grown h1 h" by auto
  have "resolve_outer H (length (data self)) (i # is) self = Inr (self\<lparr>store := h\<rparr>)"
    using h1 h by simp
  then show ?case using grown_trans [OF g1 g2] by blast
qed

lemma resolve_same_key:
  assumes "same_key self"
  shows "\<exists>h. resolve H self = Inr (self\<lparr>store := h\<rparr>) \<and> grown (store self) h"
proof -
  have "\<forall>i\<in>set [0..<length (data self)]. i < length (data self)"
    by simp
  from resolve_outer_same_key [OF assms this] show ?thesis
    by (simp only: resolve_def)
qed


text \<open>
  Claim C4. The claim is that once \<open>resolve\<close> has returned without error, no two stored
  annotations share name and value with overlapping or adjacent ranges. The code does the
  opposite on every set whose annotations all share one name and one value: \<open>resolve\<close>
  returns normally, the set holds the same objects as before, they still share name and
  value, and two of them whose ranges overlapped before overlap afterwards. The test
  \<open>annotation_1 == annotation_2\<close> widens both operands and is true for each such pair, so
  the loop goes on with \<open>continue\<close>, \<open>_resolve_pair\<close> is never reached and nothing is
  removed. On \<open>{(0,2,"b","true"), (1,4,"b","true")}\<close>, in either iteration order, the set
  ends with its two objects, both \<open>(0,4,"b","true")\<close>.
\<close>

theorem resolve_same_key_keeps_all:
  assumes "same_key self"
  shows "\<exists>h. resolve H self = Inr (self\<lparr>store := h\<rparr>) \<and>
             length h = length (store self) \<and>
             (\<forall>p\<in>snd ` set (data self). \<forall>q\<in>snd ` set (data self).
                name (h ! p) = name (h ! q) \<and> value' (h ! p) = value' (h ! q) \<and>
                (start (store self ! p) < end' (store self ! q) \<longrightarrow>
                   start (h ! p) < end' (h ! q)))"
proof -
  from resolve_same_key [OF assms] obtain h
    where r: "resolve H self = Inr (self\<lparr>store := h\<rparr>)" and g: "grown (store self) h"
    by blast
  have v: "p < length (store self)" if "p \<in> snd ` set (data self)" for p
    using assms that unfolding same_key_def by blast
  have k: "name (store self ! p) = name (store self ! q) \<and>
           value' (store self ! p) = value' (store self ! q)"
    if "p \<in> snd ` set (data self)" "q \<in> snd ` set (data self)" for p q
    using assms that unfolding same_key_def by blast
  have w: "name (h ! r) = name (store self ! r) \<and> value' (h ! r) = value' (store self ! r) \<and>
           start (h ! r) \<le> start (store self ! r) \<and> end' (store self ! r) \<le> end' (h ! r)"
    if "r < length (store self)" for r
    using g that unfolding grown_def by blast
  have l: "length h = length (store self)"
    using g unfolding grown_def by blast
  have "name (h ! p) = name (h ! q) \<and> value' (h ! p) = value' (h ! q) \<and>
        (start (store self ! p) < end' (store self ! q) \<longrightarrow> start (h ! p) < end' (h ! q))"
    if "p \<in> snd ` set (data self)" "q \<in> snd ` set (data self)" for p q
    using w [OF v [OF that(1)]] w [OF v [OF that(2)]] k [OF that] by auto
  with r l show ?thesis by blast
qed


theorem resolve_keeps_both:
  "resolve example_hash (pair_set example_hash (b_true 0 2) (b_true 1 4)) =
     Inr ((pair_set example_hash (b_true 0 2) (b_true 1 4))
            \<lparr>store := [b_true 0 4, b_true 0 4]\<rparr>) \<and>
   resolve example_hash
     \<lparr>store = [b_true 0 2, b_true 1 4],
      data = [(annotation_hash example_hash (b_true 1 4), 1),
              (annotation_hash example_hash (b_true 0 2), 0)]\<rparr> =
     Inr \<lparr>store = [b_true 0 4, b_true 0 4],
          data = [(annotation_hash example_hash (b_true 1 4), 1),
                  (annotation_hash example_hash (b_true 0 2), 0)]\<rparr> \<and>
   length (data (pair_set example_hash (b_true 0 2) (b_true 1 4))) = 2 \<and>
   Annotations_iter ((pair_set example_hash (b_true 0 2) (b_true 1 4))
                       \<lparr>store := [b_true 0 4, b_true 0 4]\<rparr>) =
     [b_true 0 4, b_true 0 4]"
proof -
  have s: "same_key (pair_set example_hash (b_true 0 2) (b_true 1 4))"
    by (simp add: same_key_def pair_set_def b_true_def)
  have e: "resolve example_hash (pair_set example_hash (b_true 0 2) (b_true 1 4)) =
     Inr ((pair_set example_hash (b_true 0 2) (b_true 1 4))
            \<lparr>store := [b_true 0 4, b_true 0 4]\<rparr>)"
    by (simp add: resolve_def pair_set_def annotation_eq_def set_start_def set_end_def
        b_true_def upt_rec)
  have e': "resolve example_hash
     \<lparr>store = [b_true 0 2, b_true 1 4],
      data = [(annotation_hash example_hash (b_true 1 4), 1),
              (annotation_hash example_hash (b_true 0 2), 0)]\<rparr> =
     Inr \<lparr>store = [b_true 0 4, b_true 0 4],
          data = [(annotation_hash example_hash (b_true 1 4), 1),
                  (annotation_hash example_hash (b_true 0 2), 0)]\<rparr>"
    by (simp add: resolve_def annotation_eq_def set_start_def set_end_def b_true_def upt_rec)
  show ?thesis
    using resolve_same_key_keeps_all [OF s, of example_hash] e e'
    by (simp add: Annotations_iter_def pair_set_def)
qed

text \<open>
  Claim C7. The claim is that merging two annotations of equal name and value whose ranges
  overlap, neither containing the other, gives their envelope, so that resolving
  \<open>{(0,2,"b","true"), (1,4,"b","true")}\<close> yields exactly \<open>{(0,4,"b","true")}\<close>. In the code,
  \<open>resolve\<close> on that set, whatever the hash, returns with the set still holding its two
  objects, both now \<open>(0,4,"b","true")\<close>: the pair is never replaced by one annotation.
  A direct call of \<open>_resolve_pair\<close> does not always leave the envelope in the set either:
  where \<open>hash(-1) == hash(-2)\<close>, as in CPython, and the hashes of \<open>(-2,3,"b","true")\<close> and
  \<open>(-1,5,"b","true")\<close> differ, it returns the envelope \<open>(-2,5,"b","true")\<close> but, while
  building the set of the three objects, compares the second argument with the new
  annotation, rewrites the second argument to \<open>(-2,5,"b","true")\<close>, drops the new
  annotation and leaves \<open>_data\<close> empty.
\<close>

theorem overlap_example_not_replaced:
  "resolve H (pair_set H (b_true 0 2) (b_true 1 4)) =
     Inr ((pair_set H (b_true 0 2) (b_true 1 4))\<lparr>store := [b_true 0 4, b_true 0 4]\<rparr>) \<and>
   Annotations_iter ((pair_set H (b_true 0 2) (b_true 1 4))\<lparr>store := [b_true 0 4, b_true 0 4]\<rparr>) =
     [b_true 0 4, b_true 0 4] \<and>
   (hash_int H (- 1) = hash_int H (- 2) \<and>
    annotation_hash H (b_true (- 2) 3) \<noteq> annotation_hash H (b_true (- 1) 5) \<longrightarrow>
      resolve_pair H (pair_set H (b_true (- 2) 3) (b_true (- 1) 5)) 0 1 =
        Inr (2, \<lparr>store = [b_true (- 2) 3, b_true (- 2) 5, b_true (- 2) 5], data = []\<rparr>))"
proof -
  have r: "resolve H (pair_set H (b_true 0 2) (b_true 1 4)) =
     Inr ((pair_set H (b_true 0 2) (b_true 1 4))\<lparr>store := [b_true 0 4, b_true 0 4]\<rparr>)"
    by (simp add: resolve_def pair_set_def annotation_eq_def set_start_def set_end_def
        b_true_def upt_rec)
  have i: "Annotations_iter
      ((pair_set H (b_true 0 2) (b_true 1 4))\<lparr>store := [b_true 0 4, b_true 0 4]\<rparr>) =
     [b_true 0 4, b_true 0 4]"
    by (simp add: Annotations_iter_def pair_set_def)
  have c: "resolve_pair H (pair_set H (b_true (- 2) 3) (b_true (- 1) 5)) 0 1 =
        Inr (2, \<lparr>store = [b_true (- 2) 3, b_true (- 2) 5, b_true (- 2) 5], data = []\<rparr>)"
    if h: "hash_int H (- 1) = hash_int H (- 2)"
      and n: "annotation_hash H (b_true (- 2) 3) \<noteq> annotation_hash H (b_true (- 1) 5)"
  proof -
    have same: "annotation_hash H (b_true (- 2) 5) = annotation_hash H (b_true (- 1) 5)"
      using h by (simp add: annotation_hash_def b_true_def)
    have n': "annotation_hash H (b_true (- 1) 5) \<noteq> annotation_hash H (b_true (- 2) 3)"
      using n by simp
    have b: "\<lparr>start = - 2, end' = 5, name = ''b'', value' = ''true''\<rparr> = b_true (- 2) 5"
      by (simp add: b_true_def)
    have f: "start (b_true s e) = s" "end' (b_true s e) = e" "name (b_true s e) = ''b''"
      "value' (b_true s e) = ''true''" for s e
      by (simp_all add: b_true_def)
    have e: "annotation_eq [b_true (- 2) 3, b_true (- 1) 5, b_true (- 2) 5] (Suc 0) (Suc (Suc 0)) =
               (True, [b_true (- 2) 3, b_true (- 2) 5, b_true (- 2) 5])"
      by (simp add: annotation_eq_def set_start_def set_end_def b_true_def)
    show ?thesis
      by (simp add: resolve_pair_def Let_def set_add_def pair_set_def f b n n' same e)
  qed
  from r i c show ?thesis by blast
qed

theorem overlap_example_not_replaced_witness:
  "hash_int example_hash (- 1) = hash_int example_hash (- 2) \<and>
   resolve example_hash (pair_set example_hash (b_true 0 2) (b_true 1 4)) =
     Inr ((pair_set example_hash (b_true 0 2) (b_true 1 4))
            \<lparr>store := [b_true 0 4, b_true 0 4]\<rparr>) \<and>
   resolve_pair example_hash (pair_set example_hash (b_true (- 2) 3) (b_true (- 1) 5)) 0 1 =
     Inr (2, \<lparr>store = [b_true (- 2) 3, b_true (- 2) 5, b_true (- 2) 5], data = []\<rparr>)"
proof -
  have h: "hash_int example_hash (- 1) = hash_int example_hash (- 2)"
    by (simp add: example_hash_def)
  have n: "annotation_hash example_hash (b_true (- 2) 3) \<noteq>
           annotation_hash example_hash (b_true (- 1) 5)"
    by (simp add: annotation_hash_def example_hash_def b_true_def)
  from overlap_example_not_replaced [of example_hash] h n show ?thesis by blast
qed


section \<open>Properties of the document\<close>

text \<open>None of the four names the document asks its \<open>Annotations\<close> for is defined.\<close>

lemma Annotations_missing:
  "Annotations_getattr ''rotate'' = Inl AttributeError"
  "Annotations_getattr ''extend'' = Inl AttributeError"
  "Annotations_getattr ''append'' = Inl AttributeError"
  "Annotations_getattr ''popleft'' = Inl AttributeError"
  by (simp_all add: Annotations_getattr_def Annotations_attributes_def object_attributes_def)

lemma call_annotations_missing:
  "call_annotations ''rotate'' self = Raised AttributeError self"
  "call_annotations ''extend'' self = Raised AttributeError self"
  "call_annotations ''append'' self = Raised AttributeError self"
  "call_annotations ''popleft'' self = Raised AttributeError self"
  by (simp_all add: call_annotations_def Annotations_missing)


text \<open>The loop of \<open>delete\<close>: it ends normally when enough elements are there.\<close>

lemma popleft_times_enough:
  "k \<le> length (content self) \<Longrightarrow>
     popleft_times k self = Returned (self\<lparr>content := drop k (content self)\<rparr>)"
proof (induction k arbitrary: self)
  case 0
  show ?case by simp
next
  case (Suc k)
  then obtain x xs where c: "content self = x # xs" by (cases "content self") auto
  with Suc.prems have "k \<le> length (content (self\<lparr>content := xs\<rparr>))" by simp
  from Suc.IH [OF this] c show ?case by simp
qed


text \<open>Otherwise it removes every element before \<open>popleft\<close> raises.\<close>

lemma popleft_times_short:
  "length (content self) < k \<Longrightarrow>
     popleft_times k self = Raised IndexError (self\<lparr>content := []\<rparr>)"
proof (induction k arbitrary: self)
  case 0
  then show ?case by simp
next
  case (Suc k)
  show ?case
  proof (cases "content self")
    case Nil
    then have "self\<lparr>content := []\<rparr> = self" by simp
    with Nil show ?thesis by simp
  next
    case (Cons x xs)
    with Suc.prems have "length (content (self\<lparr>content := xs\<rparr>)) < k" by simp
    from Suc.IH [OF this] Cons show ?thesis by simp
  qed
qed

lemma deque_rotate_cases:
  "deque_rotate n xs =
     (if n < PY_SSIZE_T_MIN \<or> PY_SSIZE_T_MAX < n then Inl OverflowError
      else Inr (if xs = [] then [] else rotate (nat ((- n) mod int (length xs))) xs))"
  by (simp add: deque_rotate_def)


text \<open>
  Claim C5. The claim is that \<open>retain(2)\<close>, \<open>insert_characters("XY")\<close>, \<open>delete(1)\<close> and
  then \<open>complete()\<close> on a document holding "ABCD" yield "ABXYD". In the code the first call
  already raises \<open>AttributeError\<close>, after it has rotated the content to "CDAB" and set the
  rotation to 2, so the script never reaches \<open>complete()\<close>. The second part shows what the
  deque itself would hold if each call were made on the document the previous one left
  behind: "ABXYD", the content the claim expects.
\<close>

theorem script_raises:
  "and_then (and_then (and_then (retain 2 abcd) (insert_characters (Sequence ''XY'') None))
     (delete 1)) complete =
     Raised AttributeError (abcd\<lparr>content := ''CDAB'', rotation := 2\<rparr>) \<and>
   content (document_of (complete (document_of (delete 1 (document_of
      (insert_characters (Sequence ''XY'') None (document_of (retain 2 abcd)))))))) = ''ABXYD''"
  by (simp add: retain_def insert_characters_def delete_def complete_def fix_rotation_def
      call_annotations_missing deque_rotate_def PY_SSIZE_T_MAX_def PY_SSIZE_T_MIN_def
      abcd_def BlipDocument_init_def Let_def numeral_2_eq_2 rotate1_def)







text \<open>
  Claim C10. As stated, the claim says that each of \<open>retain\<close>, \<open>insert_characters\<close>,
  \<open>insert\<close> and \<open>delete\<close> raises \<open>AttributeError\<close> at its call into the annotations,
  whatever the arguments. On a document whose annotations are not empty, \<open>delete(2)\<close>
  with one element held raises \<open>IndexError\<close> in its loop, \<open>retain(2**63 + 1)\<close> raises
  \<open>OverflowError\<close> in \<open>deque.rotate\<close>, and \<open>insert_characters\<close> of an iterator with the
  rotation at 1 raises \<open>TypeError\<close> at \<open>len(value)\<close>; none of them reaches that call.
\<close>

theorem annotation_layer_not_reached:
  "data (annotations annotated) \<noteq> [] \<and>
   delete 2 annotated = Raised IndexError (annotated\<lparr>content := []\<rparr>) \<and>
   retain (2 ^ 63 + 1) annotated =
     Raised OverflowError (annotated\<lparr>rotation := 2 ^ 63 + 1\<rparr>) \<and>
   insert_characters (Iterator ''XY'') None (annotated\<lparr>rotation := 1\<rparr>) =
     Raised TypeError (annotated\<lparr>rotation := 1, content := ''AXY''\<rparr>) \<and>
   IndexError \<noteq> AttributeError \<and> OverflowError \<noteq> AttributeError \<and>
   TypeError \<noteq> AttributeError"
  by (simp add: delete_def retain_def insert_characters_def annotated_def deque_rotate_def
      PY_SSIZE_T_MAX_def PY_SSIZE_T_MIN_def Let_def eval_nat_numeral)


text \<open>
  Claim C10, amended. Each of the four methods raises \<open>AttributeError\<close> at its call into
  the annotations whenever it gets that far, having changed the deque (and, in \<open>retain\<close>
  and \<open>insert_characters\<close>, the rotation) before. \<open>retain(n)\<close> gets there exactly when
  \<open>-n\<close> fits a C index; otherwise \<open>deque.rotate\<close> raises \<open>OverflowError\<close>, with the
  rotation already changed and the deque not rotated. \<open>insert_characters\<close> gets there
  for every sequence, and for an iterator when the rotation is 0; for an iterator with
  another rotation \<open>len(value)\<close> raises \<open>TypeError\<close>. \<open>insert\<close> always gets there.
  \<open>delete(n)\<close> gets there, after removing \<open>n\<close> elements, when \<open>n\<close> is at most the
  number of elements held; for a larger \<open>n\<close> it raises before, and what it raises is not
  \<open>AttributeError\<close>.
\<close>

theorem annotation_layer_calls:
  "retain n self =
     (if - n < PY_SSIZE_T_MIN \<or> PY_SSIZE_T_MAX < - n
      then Raised OverflowError (self\<lparr>rotation := rotation self + n\<rparr>)
      else Raised AttributeError
             (self\<lparr>rotation := rotation self + n,
                    content := (if content self = [] then []
                                else rotate (nat (n mod int (length (content self))))
                                       (content self))\<rparr>)) \<and>
   insert_characters (Sequence xs) annots self =
     Raised AttributeError
       (if rotation self \<noteq> 0
        then self\<lparr>content := content self @ xs,
                  rotation := rotation self + int (length xs)\<rparr>
        else self\<lparr>content := content self @ xs\<rparr>) \<and>
   insert_characters (Iterator xs) annots self =
     (if rotation self \<noteq> 0
      then Raised TypeError (self\<lparr>content := content self @ xs\<rparr>)
      else Raised AttributeError (self\<lparr>content := content self @ xs\<rparr>)) \<and>
   insert_element element annots self =
     Raised AttributeError (self\<lparr>content := content self @ [element]\<rparr>) \<and>
   (n \<le> int (length (content self)) \<longrightarrow>
      delete n self =
        Raised AttributeError (self\<lparr>content := drop (nat n) (content self)\<rparr>)) \<and>
   (int (length (content self)) < n \<longrightarrow>
      (\<exists>e self'. delete n self = Raised e self' \<and> e \<noteq> AttributeError))"
proof -
  have d1: "delete n self =
      Raised AttributeError (self\<lparr>content := drop (nat n) (content self)\<rparr>)"
    if "n \<le> int (length (content self))"
  proof -
    from that have "nat n \<le> length (content self)" by linarith
    then show ?thesis by (simp add: delete_def popleft_times_enough call_annotations_missing)
  qed
  have d2: "\<exists>e self'. delete n self = Raised e self' \<and> e \<noteq> AttributeError"
    if "int (length (content self)) < n"
  proof -
    from that have "length (content self) < nat n" by linarith
    then have "delete n self = Raised IndexError (self\<lparr>content := []\<rparr>)"
      by (simp add: delete_def popleft_times_short)
    then show ?thesis by simp
  qed
  have r: "retain n self =
     (if - n < PY_SSIZE_T_MIN \<or> PY_SSIZE_T_MAX < - n
      then Raised OverflowError (self\<lparr>rotation := rotation self + n\<rparr>)
      else Raised AttributeError
             (self\<lparr>rotation := rotation self + n,
                    content := (if content self = [] then []
                                else rotate (nat (n mod int (length (content self))))
                                       (content self))\<rparr>))"
    by (simp add: retain_def deque_rotate_cases call_annotations_missing Let_def)
  have i: "insert_characters (Sequence xs) annots self =
     Raised AttributeError
       (if rotation self \<noteq> 0
        then self\<lparr>content := content self @ xs,
                  rotation := rotation self + int (length xs)\<rparr>
        else self\<lparr>content := content self @ xs\<rparr>)"
    "insert_characters (Iterator xs) annots self =
     (if rotation self \<noteq> 0
      then Raised TypeError (self\<lparr>content := content self @ xs\<rparr>)
      else Raised AttributeError (self\<lparr>content := content self @ xs\<rparr>))"
    by (simp_all add: insert_characters_def call_annotations_missing Let_def)
  have e: "insert_element element annots self =
     Raised AttributeError (self\<lparr>content := content self @ [element]\<rparr>)"
    by (simp add: insert_element_def call_annotations_missing)
  from r i e d1 d2 show ?thesis by blast
qed

theorem annotation_layer_calls_witness:
  "retain 2 abcd = Raised AttributeError (abcd\<lparr>rotation := 2, content := ''CDAB''\<rparr>) \<and>
   insert_characters (Sequence ''XY'') None abcd =
     Raised AttributeError (abcd\<lparr>content := ''ABCDXY''\<rparr>) \<and>
   insert_element CHR ''X'' None abcd = Raised AttributeError (abcd\<lparr>content := ''ABCDX''\<rparr>) \<and>
   delete 2 abcd = Raised AttributeError (abcd\<lparr>content := ''CD''\<rparr>)"
  using annotation_layer_calls [of 2 abcd "''XY''" None "CHR ''X''"]
  by (simp add: abcd_def BlipDocument_init_def PY_SSIZE_T_MAX_def PY_SSIZE_T_MIN_def
      numeral_2_eq_2 rotate1_def)


section \<open>Properties of Contributors\<close>

text \<open>
  The eight overridden methods leave the list as it is, and \<open>[u1]\<close> after \<open>append(u2)\<close>
  and \<open>remove(u1)\<close> is \<open>[u1, u2]\<close>.
\<close>

lemma Contributors_overridden:
  "Contributors_remove self x = self"
  "Contributors_pop self i = self"
  "Contributors_sort self = self"
  "Contributors_reverse self = self"
  "Contributors_delitem self j = self"
  "Contributors_delslice self j k = self"
  "Contributors_setitem self j x = self"
  "Contributors_setslice self j k xs = self"
  "Contributors_remove (Contributors_append [u1] u2) u1 = [u1, u2]"
  by (simp_all add: Contributors_append_def Contributors_delitem_def Contributors_delslice_def
       Contributors_setitem_def Contributors_setslice_def Contributors_pop_def
       Contributors_remove_def Contributors_sort_def Contributors_reverse_def)


text \<open>
  Claim C9. The claim is that Contributors is append-only: the overridden operations are
  silent no-ops, the length of the list never decreases and the order of the elements it
  holds never changes. The no-ops are as claimed, but the class inherits \<open>__imul__\<close> and
  \<open>__init__\<close> of \<open>list\<close> as they are: after \<open>append(u1)\<close> and \<open>append(u2)\<close>, \<open>c *= 0\<close>
  leaves the list empty, as it does every list, and so does \<open>c.__init__([])\<close>.
\<close>

theorem Contributors_imul_empties:
  "Contributors_calls [] [Append u1, Append u2, IMul 0] = Inr [] \<and>
   Contributors_call self (IMul 0) = Inr [] \<and>
   Contributors_call self (Init []) = Inr []"
  by (simp add: Contributors_imul_def Contributors_init_def Contributors_append_def
      PY_SSIZE_T_MAX_def PY_SSIZE_T_MIN_def)


end
